theory Spec2Isabelle
  imports Main "HOL-Library.Sublist" "HOL-Library.Word"
begin

section \<open>Python strings as lists of code points\<close>

text \<open>
  A Python \<open>str\<close> is a sequence of Unicode code points; the program compares characters
  with the characters U+0400 and U+04FF and with \<open>ord(c) < 128\<close>, so a character is modelled by
  its code point (a natural number) and a string by a list of code points.
\<close>

type_synonym codepoint = nat
type_synonym ustr = "codepoint list"
type_synonym bytes = "8 word list"

datatype py_error = IndexError | ValueError | ServiceError | ChannelError

text \<open>\<open>str.isspace\<close> on one character: the code points CPython treats as whitespace.\<close>

definition isspace :: "codepoint \<Rightarrow> bool" where
  "isspace c \<longleftrightarrow>
     (9 \<le> c \<and> c \<le> 13) \<or> (28 \<le> c \<and> c \<le> 32) \<or> c = 133 \<or> c = 160 \<or> c = 5760
     \<or> (8192 \<le> c \<and> c \<le> 8202) \<or> c = 8232 \<or> c = 8233 \<or> c = 8239 \<or> c = 8287
     \<or> c = 12288"

text \<open>
  \<open>c.isalpha()\<close>: on ASCII exactly the letters A-Z and a-z. Beyond ASCII the answer comes
  from the Unicode database of the interpreter, which is not part of the repository: it
  is the parameter \<open>ua\<close>.
\<close>

definition ascii_letter :: "codepoint \<Rightarrow> bool" where
  "ascii_letter c \<longleftrightarrow> (65 \<le> c \<and> c \<le> 90) \<or> (97 \<le> c \<and> c \<le> 122)"

definition py_isalpha :: "(codepoint \<Rightarrow> bool) \<Rightarrow> codepoint \<Rightarrow> bool" where
  "py_isalpha ua c = (if c < 128 then ascii_letter c else ua c)"

text \<open>The test \<open>U+0400 <= char <= U+04FF\<close> of the program.\<close>

definition cyrillic :: "codepoint \<Rightarrow> bool" where
  "cyrillic c \<longleftrightarrow> 1024 \<le> c \<and> c \<le> 1279"

definition has_cyrillic :: "ustr \<Rightarrow> bool" where
  "has_cyrillic s = list_ex cyrillic s"

text \<open>\<open>any(c.isalpha() and ord(c) < 128 for c in line)\<close>\<close>

definition has_latin :: "(codepoint \<Rightarrow> bool) \<Rightarrow> ustr \<Rightarrow> bool" where
  "has_latin ua s = list_ex (\<lambda>c. py_isalpha ua c \<and> c < 128) s"

text \<open>\<open>any(c.isalpha() for c in line)\<close>\<close>

definition has_alpha :: "(codepoint \<Rightarrow> bool) \<Rightarrow> ustr \<Rightarrow> bool" where
  "has_alpha ua s = list_ex (py_isalpha ua) s"

text \<open>The literals of the program.\<close>

definition SEP :: ustr where "SEP = [45, 45, 45]"
definition NL :: ustr where "NL = [10]"
definition SP :: ustr where "SP = [32]"
definition BRACKETS :: ustr where "BRACKETS = [91, 93]"
definition LBRACKET :: ustr where "LBRACKET = [91]"

text \<open>
  \<open>s.strip()\<close> and \<open>s.strip(chars)\<close>: drop from the left while the character is in the
  set, then from the right.
\<close>

definition strip_by :: "('a \<Rightarrow> bool) \<Rightarrow> 'a list \<Rightarrow> 'a list" where
  "strip_by P s = rev (dropWhile P (rev (dropWhile P s)))"

definition py_strip :: "ustr \<Rightarrow> ustr" where
  "py_strip s = strip_by isspace s"

definition py_strip_chars :: "ustr \<Rightarrow> ustr \<Rightarrow> ustr" where
  "py_strip_chars chars s = strip_by (\<lambda>c. c \<in> set chars) s"

text \<open>\<open>sep.join(xs)\<close>\<close>

fun py_join :: "'a list \<Rightarrow> 'a list list \<Rightarrow> 'a list" where
  "py_join sep [] = []"
| "py_join sep [x] = x"
| "py_join sep (x # y # ys) = x @ sep @ py_join sep (y # ys)"

text \<open>\<open>s.find(sep)\<close>, with \<open>None\<close> for -1: the index of the first occurrence.\<close>

fun py_find :: "'a list \<Rightarrow> 'a list \<Rightarrow> nat option" where
  "py_find sep [] = (if sep = [] then Some 0 else None)"
| "py_find sep (c # cs) =
     (if prefix sep (c # cs) then Some 0 else map_option Suc (py_find sep cs))"

text \<open>\<open>sep in s\<close>\<close>

definition py_contains :: "'a list \<Rightarrow> 'a list \<Rightarrow> bool" where
  "py_contains sep s \<longleftrightarrow> py_find sep s \<noteq> None"

text \<open>
  \<open>s.split(sep)\<close> with a separator: cut at every occurrence, left to right. Python raises
  \<open>ValueError\<close> on an empty separator.
\<close>

function split_all :: "'a list \<Rightarrow> 'a list \<Rightarrow> 'a list list" where
  "split_all sep s =
     (if sep = [] then [s]
      else case py_find sep s of
             None \<Rightarrow> [s]
           | Some i \<Rightarrow> take i s # split_all sep (drop (i + length sep) s))"
  by pat_completeness auto
termination
proof (relation "measure (\<lambda>(sep, s). length s)")
  show "wf (measure (\<lambda>(sep, s). length s))" by simp
next
  fix sep s :: "'a list" and i
  assume ne: "sep \<noteq> []" and f: "py_find sep s = Some i"
  have "py_find sep t = Some j \<Longrightarrow> j + length sep \<le> length t" for t j
  proof (induction t arbitrary: j)
    case Nil
    then show ?case by (simp split: if_splits)
  next
    case (Cons c cs)
    show ?case
    proof (cases "prefix sep (c # cs)")
      case True
      with Cons.prems have "j = 0" by simp
      with True show ?thesis using prefix_length_le by fastforce
    next
      case False
      with Cons.prems obtain k where "py_find sep cs = Some k" "j = Suc k" by auto
      with Cons.IH show ?thesis by fastforce
    qed
  qed
  from this [OF f] ne have "i + length sep \<le> length s" and "0 < length sep" by auto
  then have "length (drop (i + length sep) s) < length s"
    by (simp only: length_drop)
  then show "((sep, drop (i + length sep) s), (sep, s)) \<in> measure (\<lambda>(sep, s). length s)"
    by simp
qed

declare split_all.simps [simp del]

definition py_split :: "'a list \<Rightarrow> 'a list \<Rightarrow> py_error + 'a list list" where
  "py_split sep s = (if sep = [] then Inl ValueError else Inr (split_all sep s))"

text \<open>\<open>s.split(sep, 1)\<close>: at most one cut, at the first occurrence.\<close>

definition py_split1 :: "'a list \<Rightarrow> 'a list \<Rightarrow> py_error + 'a list list" where
  "py_split1 sep s =
     (if sep = [] then Inl ValueError
      else case py_find sep s of
             None \<Rightarrow> Inr [s]
           | Some i \<Rightarrow> Inr [take i s, drop (i + length sep) s])"

text \<open>
  \<open>s.split()\<close> without arguments: the maximal runs of non-whitespace characters.
\<close>

function py_split_ws :: "ustr \<Rightarrow> ustr list" where
  "py_split_ws s =
     (case dropWhile isspace s of
        [] \<Rightarrow> []
      | c # cs \<Rightarrow> takeWhile (\<lambda>x. \<not> isspace x) (c # cs)
                 # py_split_ws (dropWhile (\<lambda>x. \<not> isspace x) (c # cs)))"
  by pat_completeness auto
termination
proof (relation "measure length")
  show "wf (measure length)" by simp
next
  fix s :: ustr and c cs
  assume a: "dropWhile isspace s = c # cs"
  then have "\<not> isspace c"
    by (metis hd_dropWhile list.distinct(1) list.sel(1))
  then have "length (dropWhile (\<lambda>x. \<not> isspace x) (c # cs)) \<le> length cs"
    by (simp add: length_dropWhile_le)
  moreover have "length (c # cs) \<le> length s"
    using a length_dropWhile_le [of isspace s] by simp
  ultimately show "(dropWhile (\<lambda>x. \<not> isspace x) (c # cs), s) \<in> measure length"
    by simp
qed

declare py_split_ws.simps [simp del]

text \<open>\<open>xs[i]\<close> for a non-negative literal index: \<open>IndexError\<close> out of range.\<close>

definition py_index :: "'a list \<Rightarrow> nat \<Rightarrow> py_error + 'a" where
  "py_index xs i = (if i < length xs then Inr (xs ! i) else Inl IndexError)"

section \<open>The response splitter: \<open>parse_gigachat_response\<close>\<close>

text \<open>
  The fallback loop \<open>for i, line in enumerate(lines)\<close>: the first line with an ASCII
  letter, no Cyrillic character and no leading bracket is the phrase; \<open>lines[i+1:]\<close> is
  the rest of the list, and \<open>i + 1 < len(lines)\<close> says that it is not empty. The result
  is the pair of the two variables after the loop, both empty when no line was taken.
\<close>

fun scan_lines :: "(codepoint \<Rightarrow> bool) \<Rightarrow> ustr list \<Rightarrow> ustr \<times> ustr" where
  "scan_lines ua [] = ([], [])"
| "scan_lines ua (line # rest) =
     (if has_latin ua line \<and> \<not> has_cyrillic line \<and> \<not> prefix LBRACKET line
      then (line, if rest \<noteq> [] then py_strip (py_join NL rest) else [])
      else scan_lines ua rest)"

text \<open>
  \<open>lines = [line.strip() for line in response.split('\n') if line.strip()]\<close>
\<close>

definition nonempty_lines :: "ustr \<Rightarrow> py_error + ustr list" where
  "nonempty_lines response =
     (case py_split NL response of
        Inl e \<Rightarrow> Inl e
      | Inr ls \<Rightarrow> Inr (map py_strip (filter (\<lambda>line. py_strip line \<noteq> []) ls)))"

text \<open>The branch taken when the separator is in the (trimmed) response.\<close>

definition split_at_separator :: "ustr \<Rightarrow> py_error + ustr \<times> ustr" where
  "split_at_separator response =
     (case py_split1 SEP response of
        Inl e \<Rightarrow> Inl e
      | Inr parts \<Rightarrow>
          if length parts = 2 then
            (case py_index parts 0 of
               Inl e \<Rightarrow> Inl e
             | Inr p0 \<Rightarrow>
                 (case py_index parts 1 of
                    Inl e \<Rightarrow> Inl e
                  | Inr p1 \<Rightarrow> Inr (py_strip p0, py_strip p1)))
          else Inr (response, []))"

text \<open>The branch taken when it is not.\<close>

definition split_by_lines :: "(codepoint \<Rightarrow> bool) \<Rightarrow> ustr \<Rightarrow> py_error + ustr \<times> ustr" where
  "split_by_lines ua response =
     (case nonempty_lines response of
        Inl e \<Rightarrow> Inl e
      | Inr lines \<Rightarrow>
          (case scan_lines ua lines of
             (english_text, explanation) \<Rightarrow>
               if english_text = [] then
                 (case (if lines \<noteq> [] then py_index lines 0 else Inr response) of
                    Inl e \<Rightarrow> Inl e
                  | Inr first \<Rightarrow>
                      Inr (first,
                           if 1 < length lines then py_strip (py_join NL (drop 1 lines))
                           else []))
               else Inr (english_text, explanation)))"

text \<open>
  \<open>english_text.strip('[]').strip()\<close>, then \<open>' '.join(english_text.split())\<close>.
\<close>

definition clean_phrase :: "ustr \<Rightarrow> ustr" where
  "clean_phrase t = py_join SP (py_split_ws (py_strip (py_strip_chars BRACKETS t)))"

definition parse_gigachat_response ::
  "(codepoint \<Rightarrow> bool) \<Rightarrow> ustr \<Rightarrow> py_error + ustr \<times> ustr" where
  "parse_gigachat_response ua response0 =
     (let response = py_strip response0 in
      case (if py_contains SEP response then split_at_separator response
            else split_by_lines ua response) of
        Inl e \<Rightarrow> Inl e
      | Inr (english_text, explanation) \<Rightarrow>
          Inr (clean_phrase english_text, py_strip explanation))"

section \<open>The orchestrator: \<open>process_message\<close>\<close>

text \<open>
  The handler talks to three collaborators: the chat channel (\<open>message.answer\<close>,
  \<open>message.answer_voice\<close>, \<open>message.bot.send_chat_action\<close>), the completion client
  (\<open>gigachat_client.send_message\<close>) and the speech client
  (\<open>tts_client.generate_speech\<close>). Every call it makes is recorded, in order, as an event;
  \<open>asyncio.sleep\<close> is recorded too. Logging is not modelled.
\<close>

datatype chat_action = Typing | RecordVoice

datatype event =
    Answer ustr
  | AnswerMarkdown ustr
  | SendChatAction chat_action
  | SendMessage ustr
  | GenerateSpeech ustr
  | AnswerVoice bytes
  | Sleep nat

text \<open>
  The collaborators are outside the repository. What each call returns, or that it
  raises, is given by the world, and may depend on everything that happened before.
\<close>

record world =
  gigachat :: "event list \<Rightarrow> ustr \<Rightarrow> py_error + ustr"
  tts :: "event list \<Rightarrow> ustr \<Rightarrow> py_error + bytes"
  channel_raises :: "event list \<Rightarrow> event \<Rightarrow> bool"

text \<open>
  A computation takes the events so far and returns its result, or the exception it
  raised, with the events extended.
\<close>

type_synonym 'a io = "event list \<Rightarrow> (py_error + 'a) \<times> event list"

definition bind_io :: "'a io \<Rightarrow> ('a \<Rightarrow> 'b io) \<Rightarrow> 'b io" where
  "bind_io m f tr = (case m tr of (Inl e, tr') \<Rightarrow> (Inl e, tr') | (Inr v, tr') \<Rightarrow> f v tr')"

definition lift_io :: "py_error + 'a \<Rightarrow> 'a io" where
  "lift_io r tr = (r, tr)"

definition channel_call :: "world \<Rightarrow> event \<Rightarrow> unit io" where
  "channel_call w ev tr =
     (if channel_raises w tr ev then Inl ChannelError else Inr (), tr @ [ev])"

definition send_message :: "world \<Rightarrow> ustr \<Rightarrow> ustr io" where
  "send_message w message tr = (gigachat w tr message, tr @ [SendMessage message])"

definition generate_speech :: "world \<Rightarrow> ustr \<Rightarrow> bytes io" where
  "generate_speech w text tr = (tts w tr text, tr @ [GenerateSpeech text])"

definition sleep :: "nat \<Rightarrow> unit io" where
  "sleep n tr = (Inr (), tr @ [Sleep n])"

text \<open>\<open>try: ... except: pass\<close>\<close>

definition except_pass :: "unit io \<Rightarrow> unit io" where
  "except_pass m tr = (case m tr of (r, tr') \<Rightarrow> (Inr (), tr'))"

text \<open>The message texts of the program, as code points.\<close>

definition REJECT_MESSAGE :: ustr where
  "REJECT_MESSAGE =
     [1055, 1086, 1078, 1072, 1083, 1091, 1081, 1089, 1090, 1072, 44, 32, 1086, 1090, 1087,
     1088, 1072, 1074, 1100, 1090, 1077, 32, 1090, 1077, 1082, 1089, 1090, 1086, 1074, 1086,
     1077, 32, 1089, 1086, 1086, 1073, 1097, 1077, 1085, 1080, 1077, 46]"

definition ERROR_MESSAGE :: ustr where
  "ERROR_MESSAGE =
     [1055, 1088, 1086, 1080, 1079, 1086, 1096, 1083, 1072, 32, 1086, 1096, 1080, 1073, 1082,
     1072, 32, 1087, 1088, 1080, 32, 1086, 1073, 1088, 1072, 1073, 1086, 1090, 1082, 1077,
     32, 1074, 1072, 1096, 1077, 1075, 1086, 32, 1079, 1072, 1087, 1088, 1086, 1089, 1072,
     46, 32, 1055, 1086, 1078, 1072, 1083, 1091, 1081, 1089, 1090, 1072, 44, 32, 1087, 1086,
     1087, 1088, 1086, 1073, 1091, 1081, 1090, 1077, 32, 1077, 1097, 1077, 32, 1088, 1072,
     1079, 32, 1087, 1086, 1079, 1078, 1077, 46]"

definition ERROR_NOTE :: ustr where
  "ERROR_NOTE =
     [10, 10, 9888, 65039, 32, 95, 1053, 1077, 32, 1091, 1076, 1072, 1083, 1086, 1089, 1100,
     32, 1089, 1075, 1077, 1085, 1077, 1088, 1080, 1088, 1086, 1074, 1072, 1090, 1100, 32,
     1086, 1079, 1074, 1091, 1095, 1082, 1091, 32, 1076, 1083, 1103, 32, 1092, 1088, 1072,
     1079, 1099, 46, 95]"

definition PLACEHOLDER :: ustr where
  "PLACEHOLDER =
     [84, 114, 97, 110, 115, 108, 97, 116, 105, 111, 110, 32, 110, 111, 116, 32, 97, 118, 97,
     105, 108, 97, 98, 108, 101]"

text \<open>
  Lines 317-323: an empty phrase is replaced by the text before the first separator of
  the raw reply (the whole reply when there is none), and by a fixed phrase when that is
  empty too.
\<close>

definition fix_empty :: "ustr \<Rightarrow> ustr \<Rightarrow> py_error + ustr" where
  "fix_empty gigachat_response english_text =
     (if english_text = [] \<or> py_strip english_text = [] then
        (case (if py_contains SEP gigachat_response then
                 (case py_split SEP gigachat_response of
                    Inl e \<Rightarrow> Inl e
                  | Inr parts \<Rightarrow>
                      (case py_index parts 0 of
                         Inl e \<Rightarrow> Inl e
                       | Inr p \<Rightarrow> Inr (py_strip p)))
               else Inr (py_strip gigachat_response)) of
           Inl e \<Rightarrow> Inl e
         | Inr t \<Rightarrow> Inr (if t = [] then PLACEHOLDER else t))
      else Inr english_text)"

text \<open>
  Lines 330-337: the loop over the lines of the raw reply. It stops at the first
  trimmed line that is not empty, has no Cyrillic character, has an alphabetic
  character, does not contain the separator and does not start with a bracket.
\<close>

fun rescan :: "(codepoint \<Rightarrow> bool) \<Rightarrow> ustr list \<Rightarrow> ustr option" where
  "rescan ua [] = None"
| "rescan ua (raw_line # rest) =
     (let line = py_strip raw_line in
      if line \<noteq> [] \<and> \<not> has_cyrillic line \<and> has_alpha ua line then
        (if \<not> py_contains SEP line \<and> \<not> prefix LBRACKET line then Some line
         else rescan ua rest)
      else rescan ua rest)"

text \<open>Lines 325-337: the repair of a phrase with a Cyrillic character.\<close>

definition repair :: "(codepoint \<Rightarrow> bool) \<Rightarrow> ustr \<Rightarrow> ustr \<Rightarrow> py_error + ustr" where
  "repair ua gigachat_response english_text =
     (if has_cyrillic english_text then
        (case py_split NL gigachat_response of
           Inl e \<Rightarrow> Inl e
         | Inr lines \<Rightarrow>
             (case rescan ua lines of
                None \<Rightarrow> Inr english_text
              | Some line \<Rightarrow> Inr line))
      else Inr english_text)"

text \<open>Lines 339-343: the text reply.\<close>

definition compose :: "ustr \<Rightarrow> ustr \<Rightarrow> ustr" where
  "compose english_text explanation =
     (if explanation \<noteq> [] then english_text @ [10, 10] @ SEP @ [10, 10] @ explanation
      else english_text)"

text \<open>
  Lines 354-369: the body of the \<open>try\<close> of one attempt. Empty audio raises
  \<open>ValueError\<close>.
\<close>

definition attempt :: "world \<Rightarrow> ustr \<Rightarrow> unit io" where
  "attempt w english_text =
     bind_io (channel_call w (SendChatAction RecordVoice)) (\<lambda>_.
     bind_io (generate_speech w (py_strip english_text)) (\<lambda>audio_data.
       if audio_data = [] then lift_io (Inl ValueError)
       else channel_call w (AnswerVoice audio_data)))"

text \<open>
  Lines 353-385: \<open>for attempt in range(max_retries)\<close>, over the list of the attempt
  numbers left. A successful attempt leaves the loop (\<open>break\<close>); a failed one is
  followed by a sleep, or after the last attempt by the notice, whose own failure is
  passed over.
\<close>

fun speech_loop :: "world \<Rightarrow> ustr \<Rightarrow> nat \<Rightarrow> nat list \<Rightarrow> unit io" where
  "speech_loop w english_text max_retries [] tr = (Inr (), tr)"
| "speech_loop w english_text max_retries (attempt_no # rest) tr =
     (case attempt w english_text tr of
        (Inr _, tr') \<Rightarrow> (Inr (), tr')
      | (Inl tts_error, tr') \<Rightarrow>
          bind_io
            (if int attempt_no < int max_retries - 1 then sleep 1
             else except_pass (channel_call w (AnswerMarkdown ERROR_NOTE)))
            (\<lambda>_. speech_loop w english_text max_retries rest) tr')"

definition max_retries :: nat where
  "max_retries = 2"

text \<open>Lines 348-385.\<close>

definition deliver :: "world \<Rightarrow> ustr \<Rightarrow> unit io" where
  "deliver w english_text =
     (if english_text \<noteq> [] \<and> py_strip english_text \<noteq> [] then
        speech_loop w english_text max_retries [0..<max_retries]
      else lift_io (Inr ()))"

text \<open>
  Lines 313-337: from the raw reply to the phrase and the explanation: the splitter,
  the replacement of an empty phrase, the repair of a phrase with Cyrillic.
\<close>

definition extract_reply :: "(codepoint \<Rightarrow> bool) \<Rightarrow> ustr \<Rightarrow> py_error + ustr \<times> ustr" where
  "extract_reply ua gigachat_response =
     (case parse_gigachat_response ua gigachat_response of
        Inl e \<Rightarrow> Inl e
      | Inr (parsed, explanation) \<Rightarrow>
          (case fix_empty gigachat_response parsed of
             Inl e \<Rightarrow> Inl e
           | Inr nonempty \<Rightarrow>
               (case repair ua gigachat_response nonempty of
                  Inl e \<Rightarrow> Inl e
                | Inr english_text \<Rightarrow> Inr (english_text, explanation))))"

text \<open>Lines 305-385: the body of the outer \<open>try\<close>.\<close>

definition handle :: "world \<Rightarrow> (codepoint \<Rightarrow> bool) \<Rightarrow> ustr \<Rightarrow> unit io" where
  "handle w ua user_text =
     bind_io (channel_call w (SendChatAction Typing)) (\<lambda>_.
     bind_io (send_message w user_text) (\<lambda>gigachat_response.
     bind_io (lift_io (extract_reply ua gigachat_response)) (\<lambda>(english_text, explanation).
     bind_io (channel_call w (Answer (compose english_text explanation))) (\<lambda>_.
     deliver w english_text))))"

text \<open>
  \<open>process_message\<close>: \<open>message.text\<close> may be \<open>None\<close>. An exception of the body is
  answered with the apology; an exception of the rejection or of the apology itself
  leaves the handler.
\<close>

definition process_message :: "world \<Rightarrow> (codepoint \<Rightarrow> bool) \<Rightarrow> ustr option \<Rightarrow> unit io" where
  "process_message w ua text tr =
     (case text of
        None \<Rightarrow> channel_call w (Answer REJECT_MESSAGE) tr
      | Some user_text \<Rightarrow>
          if user_text = [] \<or> py_strip user_text = [] then
            channel_call w (Answer REJECT_MESSAGE) tr
          else
            (case handle w ua user_text tr of
               (Inl e, tr') \<Rightarrow> channel_call w (Answer ERROR_MESSAGE) tr'
             | (Inr _, tr') \<Rightarrow> (Inr (), tr')))"

section \<open>Notions of the specification\<close>

text \<open>
  The claims speak of occurrences of the separator, of the non-empty trimmed lines of a
  reply, of the line the fallback takes, of the lines the repair accepts, of blank
  messages and of failing synthesis calls. These are defined here, apart from the
  program.
\<close>

text \<open>The positions at which \<open>sep\<close> occurs in \<open>s\<close>, in increasing order.\<close>

fun occurrences :: "'a list \<Rightarrow> 'a list \<Rightarrow> nat list" where
  "occurrences sep [] = (if sep = [] then [0] else [])"
| "occurrences sep (c # cs) =
     (if prefix sep (c # cs) then [0] else []) @ map Suc (occurrences sep cs)"

text \<open>
  A string without the characters at its two ends that satisfy \<open>P\<close>: first the
  leading ones go, then the trailing ones.
\<close>

fun drop_leading :: "('a \<Rightarrow> bool) \<Rightarrow> 'a list \<Rightarrow> 'a list" where
  "drop_leading P [] = []"
| "drop_leading P (x # xs) = (if P x then drop_leading P xs else x # xs)"

fun drop_trailing :: "('a \<Rightarrow> bool) \<Rightarrow> 'a list \<Rightarrow> 'a list" where
  "drop_trailing P [] = []"
| "drop_trailing P (x # xs) =
     (case drop_trailing P xs of
        [] \<Rightarrow> (if P x then [] else [x])
      | y # ys \<Rightarrow> x # y # ys)"

definition without_ends :: "('a \<Rightarrow> bool) \<Rightarrow> 'a list \<Rightarrow> 'a list" where
  "without_ends P s = drop_trailing P (drop_leading P s)"

text \<open>The bracket characters \<open>[\<close> and \<open>]\<close>.\<close>

definition bracket :: "codepoint \<Rightarrow> bool" where
  "bracket c \<longleftrightarrow> c = 91 \<or> c = 93"

text \<open>
  Every run of whitespace replaced by one space. The flag says that the character
  before was whitespace, so that the run has its space already.
\<close>

fun collapse_from :: "bool \<Rightarrow> ustr \<Rightarrow> ustr" where
  "collapse_from b [] = []"
| "collapse_from b (c # cs) =
     (if isspace c then (if b then collapse_from True cs else 32 # collapse_from True cs)
      else c # collapse_from False cs)"

definition collapse_runs :: "ustr \<Rightarrow> ustr" where
  "collapse_runs s = collapse_from False s"

text \<open>The non-empty trimmed lines of a string.\<close>

definition trimmed_lines :: "ustr \<Rightarrow> ustr list" where
  "trimmed_lines s = map py_strip (filter (\<lambda>line. py_strip line \<noteq> []) (split_all NL s))"

text \<open>
  A line the fallback takes as the phrase, in the words of the specification: it has an
  ASCII letter, no Cyrillic character, and does not begin with an opening bracket.
\<close>

definition target_line :: "ustr \<Rightarrow> bool" where
  "target_line line \<longleftrightarrow>
     list_ex ascii_letter line \<and> \<not> list_ex cyrillic line \<and> \<not> prefix LBRACKET line"

text \<open>
  The line the fallback takes and the lines after it: from the first line that
  qualifies on, and the whole list when no line qualifies.
\<close>

definition fallback_choice :: "ustr list \<Rightarrow> ustr list" where
  "fallback_choice ls =
     (case dropWhile (\<lambda>l. \<not> target_line l) ls of [] \<Rightarrow> ls | l # rest \<Rightarrow> l # rest)"

text \<open>The lines the repair pass accepts, in the words of the specification.\<close>

definition qualifies :: "(codepoint \<Rightarrow> bool) \<Rightarrow> ustr \<Rightarrow> bool" where
  "qualifies ua line \<longleftrightarrow>
     has_alpha ua line \<and> \<not> has_cyrillic line \<and> \<not> py_contains SEP line \<and> \<not> prefix LBRACKET line"

text \<open>A message without text, with an empty text or with whitespace only.\<close>

definition blank :: "ustr option \<Rightarrow> bool" where
  "blank text = (case text of None \<Rightarrow> True | Some t \<Rightarrow> list_all isspace t)"

text \<open>A synthesis call fails when it raises, or returns no bytes.\<close>

definition tts_fails :: "py_error + bytes \<Rightarrow> bool" where
  "tts_fails r = (case r of Inl e \<Rightarrow> True | Inr audio \<Rightarrow> audio = [])"

text \<open>
  The calls of one failed attempt after the events \<open>h\<close>: the presence signal, and the
  synthesis call unless the signal itself raised.
\<close>

definition attempt_calls :: "world \<Rightarrow> ustr \<Rightarrow> event list \<Rightarrow> event list" where
  "attempt_calls w phrase h =
     (if channel_raises w h (SendChatAction RecordVoice) then [SendChatAction RecordVoice]
      else [SendChatAction RecordVoice, GenerateSpeech (py_strip phrase)])"

text \<open>Words: not empty, and without whitespace.\<close>

definition words_ok :: "ustr list \<Rightarrow> bool" where
  "words_ok ws \<longleftrightarrow> (\<forall>w\<in>set ws. w \<noteq> [] \<and> (\<forall>c\<in>set w. \<not> isspace c))"

subsection \<open>Sample collaborators and replies\<close>

definition W_quiet :: world where
  "W_quiet = \<lparr>gigachat = (\<lambda>h t. Inr [72, 105]), tts = (\<lambda>h t. Inr [1]),
              channel_raises = (\<lambda>h e. False)\<rparr>"

definition W_fail :: world where
  "W_fail = \<lparr>gigachat = (\<lambda>h t. Inl ServiceError), tts = (\<lambda>h t. Inl ServiceError),
             channel_raises = (\<lambda>h e. e = AnswerMarkdown ERROR_NOTE)\<rparr>"

definition W_empty :: world where
  "W_empty = \<lparr>gigachat = (\<lambda>h t. Inl ServiceError), tts = (\<lambda>h t. Inr []),
              channel_raises = (\<lambda>h e. False)\<rparr>"

definition W_raise :: world where
  "W_raise = \<lparr>gigachat = (\<lambda>h t. Inl ServiceError), tts = (\<lambda>h t. Inl ServiceError),
              channel_raises = (\<lambda>h e. False)\<rparr>"

definition W_cyrillic :: world where
  "W_cyrillic = \<lparr>gigachat = (\<lambda>h t. Inr [1044, 1072]), tts = (\<lambda>h t. Inr [1]),
                 channel_raises = (\<lambda>h e. False)\<rparr>"

definition W_english :: world where
  "W_english = \<lparr>gigachat = (\<lambda>h t. Inr [1044, 1072, 10, 45, 45, 45, 10, 72, 105]),
                tts = (\<lambda>h t. Inr [1]), channel_raises = (\<lambda>h e. False)\<rparr>"

definition REPLY_NESTED :: ustr where
  "REPLY_NESTED = [91, 32, 91, 97, 93, 32, 93, 10, 45, 45, 45, 10, 120]"

definition REPLY_LINES :: ustr where
  "REPLY_LINES = [72, 101, 108, 108, 111, 10, 10, 32, 32, 102, 111, 111, 10, 10, 32, 32, 98, 97, 114]"

section \<open>Facts about the string operations\<close>

subsection \<open>Stripping\<close>

lemma strip_by_Nil_iff: "strip_by P s = [] \<longleftrightarrow> (\<forall>x\<in>set s. P x)"
proof
  assume "strip_by P s = []"
  then have "dropWhile P (rev (dropWhile P s)) = []" by (simp add: strip_by_def)
  then have "\<forall>x\<in>set (dropWhile P s). P x" by (simp add: dropWhile_eq_Nil_conv)
  then have "dropWhile P s = []"
    by (metis hd_dropWhile hd_in_set)
  then show "\<forall>x\<in>set s. P x" by (simp add: dropWhile_eq_Nil_conv)
next
  assume "\<forall>x\<in>set s. P x"
  then show "strip_by P s = []"
    by (auto simp: strip_by_def dest: set_dropWhileD)
qed

lemma strip_by_ends:
  assumes "strip_by P s \<noteq> []"
  shows "\<not> P (hd (strip_by P s))" and "\<not> P (last (strip_by P s))"
proof -
  let ?d = "dropWhile P s"
  let ?r = "dropWhile P (rev ?d)"
  from assms have r: "?r \<noteq> []" by (simp add: strip_by_def)
  then have d: "?d \<noteq> []" by (cases "?d") simp_all
  have "\<not> P (hd ?r)" using r by (rule hd_dropWhile)
  then show "\<not> P (last (strip_by P s))" using r by (simp add: strip_by_def last_rev)
  have hd_d: "\<not> P (hd ?d)" using d by (rule hd_dropWhile)
  then have "\<not> P (last (rev ?d))" using d by (simp add: last_rev)
  have "rev ?d = takeWhile P (rev ?d) @ ?r" by simp
  then have "?d = rev ?r @ rev (takeWhile P (rev ?d))"
    by (metis rev_append rev_rev_ident)
  then have "hd ?d = hd (rev ?r)" using r by (metis hd_append2 rev_is_Nil_conv)
  with hd_d show "\<not> P (hd (strip_by P s))" by (simp add: strip_by_def)
qed

lemma strip_by_id:
  assumes "s = [] \<or> (\<not> P (hd s) \<and> \<not> P (last s))"
  shows "strip_by P s = s"
proof (cases "s = []")
  case True
  then show ?thesis by (simp add: strip_by_def)
next
  case False
  with assms have h: "\<not> P (hd s)" and l: "\<not> P (last s)" by auto
  from False h have "dropWhile P s = s" by (cases s) auto
  moreover from False l have "dropWhile P (rev s) = rev s"
    by (cases "rev s") (auto simp: last_rev [symmetric] hd_rev)
  ultimately show ?thesis by (simp add: strip_by_def)
qed

lemma strip_by_idem: "strip_by P (strip_by P s) = strip_by P s"
  using strip_by_ends [of P s] by (intro strip_by_id) blast

lemma strip_by_append_mid:
  assumes "m \<noteq> []" "\<not> P (hd m)" "\<not> P (last m)"
  shows "strip_by P (a @ m @ b) = dropWhile P a @ m @ rev (dropWhile P (rev b))"
proof -
  from assms obtain x xs where m: "m = x # xs" and x: "\<not> P x" by (cases m) auto
  have 1: "dropWhile P (a @ m @ b) = dropWhile P a @ m @ b"
    by (induction a) (auto simp: m x)
  from assms obtain y ys where rm: "rev m = y # ys" and y: "\<not> P y"
    by (cases "rev m") (auto simp: last_rev [symmetric] hd_rev)
  have 2: "dropWhile P (rev b @ rev m @ c) = dropWhile P (rev b) @ rev m @ c" for c
    by (induction "rev b" arbitrary: b) (auto simp: rm y dropWhile_append)
  show ?thesis
    unfolding strip_by_def 1 using 2 [of "rev (dropWhile P a)"] by simp
qed

lemma strip_by_dropWhile: "strip_by P (dropWhile P s) = strip_by P s"
  by (simp add: strip_by_def)

lemma strip_by_rdrop: "strip_by P (rev (dropWhile P (rev s))) = strip_by P s"
proof -
  have "strip_by P (rev xs) = rev (strip_by P xs)" for xs
  proof (cases "strip_by P xs = []")
    case True
    then have "\<forall>x\<in>set (rev xs). P x" by (simp add: strip_by_Nil_iff)
    then have "strip_by P (rev xs) = []" by (simp only: strip_by_Nil_iff)
    with True show ?thesis by simp
  next
    case False
    let ?t = "strip_by P xs"
    have "xs = takeWhile P xs @ dropWhile P xs" by simp
    moreover have "rev (dropWhile P xs) = takeWhile P (rev (dropWhile P xs)) @ dropWhile P (rev (dropWhile P xs))"
      by simp
    then have "dropWhile P xs = ?t @ rev (takeWhile P (rev (dropWhile P xs)))"
      unfolding strip_by_def by (metis rev_append rev_rev_ident)
    ultimately have xs: "xs = takeWhile P xs @ ?t @ rev (takeWhile P (rev (dropWhile P xs)))"
      by simp
    let ?a = "takeWhile P xs" and ?b = "rev (takeWhile P (rev (dropWhile P xs)))"
    have a: "\<forall>x\<in>set ?a. P x" by (auto dest: set_takeWhileD)
    have b: "\<forall>x\<in>set ?b. P x" by (auto dest: set_takeWhileD)
    have e: "rev ?t \<noteq> []" "\<not> P (hd (rev ?t))" "\<not> P (last (rev ?t))"
      using False strip_by_ends [of P xs] by (simp_all add: hd_rev last_rev)
    have "rev xs = rev ?b @ rev ?t @ rev ?a"
      using xs by (metis append.assoc rev_append)
    then have "strip_by P (rev xs) = dropWhile P (rev ?b) @ rev ?t @ rev (dropWhile P (rev (rev ?a)))"
      using strip_by_append_mid [OF e] by simp
    also have "dropWhile P (rev ?b) = []" using b by (simp add: dropWhile_eq_Nil_conv)
    also have "dropWhile P (rev (rev ?a)) = []" using a by (simp add: dropWhile_eq_Nil_conv)
    finally show ?thesis by simp
  qed
  then have "strip_by P (rev (dropWhile P (rev s))) = rev (strip_by P (dropWhile P (rev s)))" .
  also have "\<dots> = rev (strip_by P (rev s))" by (simp add: strip_by_dropWhile)
  also have "\<dots> = rev (rev (strip_by P s))"
    using \<open>\<And>xs. strip_by P (rev xs) = rev (strip_by P xs)\<close> by simp
  finally show ?thesis by simp
qed

subsection \<open>Finding the separator\<close>

lemma py_find_bound: "py_find sep s = Some i \<Longrightarrow> i + length sep \<le> length s"
proof (induction s arbitrary: i)
  case Nil
  then show ?case by (simp split: if_splits)
next
  case (Cons c cs)
  show ?case
  proof (cases "prefix sep (c # cs)")
    case True
    with Cons.prems have "i = 0" by simp
    with True show ?thesis using prefix_length_le by fastforce
  next
    case False
    with Cons.prems obtain j where "py_find sep cs = Some j" "i = Suc j" by auto
    with Cons.IH show ?thesis by fastforce
  qed
qed

lemma py_find_decomp:
  "py_find sep s = Some i \<Longrightarrow> s = take i s @ sep @ drop (i + length sep) s"
proof (induction s arbitrary: i)
  case Nil
  then show ?case by (simp split: if_splits)
next
  case (Cons c cs)
  show ?case
  proof (cases "prefix sep (c # cs)")
    case True
    with Cons.prems have "i = 0" by simp
    with True show ?thesis by (auto simp: prefix_def)
  next
    case False
    with Cons.prems obtain j where j: "py_find sep cs = Some j" "i = Suc j" by auto
    from Cons.IH [OF j(1)] j(2) show ?thesis by simp
  qed
qed

lemma py_find_first:
  "py_find sep s = Some i \<Longrightarrow> j < i \<Longrightarrow> \<not> prefix sep (drop j s)"
proof (induction s arbitrary: i j)
  case Nil
  then show ?case by (simp split: if_splits)
next
  case (Cons c cs)
  show ?case
  proof (cases "prefix sep (c # cs)")
    case True
    with Cons.prems show ?thesis by simp
  next
    case False
    with Cons.prems obtain k where k: "py_find sep cs = Some k" "i = Suc k" by auto
    show ?thesis
    proof (cases j)
      case 0
      with False show ?thesis by simp
    next
      case (Suc j')
      with Cons.prems k have "j' < k" by simp
      from Cons.IH [OF k(1) this] Suc show ?thesis by simp
    qed
  qed
qed

lemma py_find_intro:
  "prefix sep (drop i s) \<Longrightarrow> i \<le> length s \<Longrightarrow> (\<forall>j<i. \<not> prefix sep (drop j s))
   \<Longrightarrow> py_find sep s = Some i"
proof (induction s arbitrary: i)
  case Nil
  then show ?case by simp
next
  case (Cons c cs)
  show ?case
  proof (cases i)
    case 0
    with Cons.prems show ?thesis by simp
  next
    case (Suc i')
    with Cons.prems have np: "\<not> prefix sep (c # cs)" by (metis drop0 zero_less_Suc)
    have "py_find sep cs = Some i'"
    proof (rule Cons.IH)
      show "prefix sep (drop i' cs)" using Cons.prems(1) Suc by simp
      show "i' \<le> length cs" using Cons.prems(2) Suc by simp
      show "\<forall>j<i'. \<not> prefix sep (drop j cs)"
      proof (intro allI impI)
        fix j assume "j < i'"
        then have "Suc j < i" using Suc by simp
        with Cons.prems(3) have "\<not> prefix sep (drop (Suc j) (c # cs))" by blast
        then show "\<not> prefix sep (drop j cs)" by simp
      qed
    qed
    with np Suc show ?thesis by simp
  qed
qed

lemma py_find_None: "py_find sep s = None \<Longrightarrow> \<not> prefix sep (drop j s)"
proof (induction s arbitrary: j)
  case Nil
  then show ?case by (simp split: if_splits)
next
  case (Cons c cs)
  then have np: "\<not> prefix sep (c # cs)" and n: "py_find sep cs = None"
    by (auto split: if_splits)
  show ?case
  proof (cases j)
    case 0
    with np show ?thesis by simp
  next
    case (Suc j')
    with Cons.IH [OF n] show ?thesis by simp
  qed
qed

lemma py_contains_sublist: "py_contains sep s \<longleftrightarrow> sublist sep s"
proof
  assume "py_contains sep s"
  then obtain i where "py_find sep s = Some i" by (auto simp: py_contains_def)
  from py_find_decomp [OF this] show "sublist sep s" by (metis sublist_def)
next
  assume "sublist sep s"
  then obtain a b where s: "s = a @ sep @ b" by (auto simp: sublist_def)
  show "py_contains sep s"
  proof (rule ccontr)
    assume "\<not> py_contains sep s"
    then have "py_find sep s = None" by (simp add: py_contains_def)
    from py_find_None [OF this, of "length a"] s show False by simp
  qed
qed

lemma prefix_drop_append:
  assumes "j \<le> length a"
  shows "prefix sep (drop j (a @ sep @ b)) \<longleftrightarrow> prefix sep (drop j (a @ sep))"
proof -
  have "prefix sep (x @ b) \<longleftrightarrow> prefix sep x" if "length sep \<le> length x" for x :: "'a list"
    using that by (auto simp: prefix_append)
  from this [of "drop j a @ sep"] show ?thesis using assms by simp
qed

subsection \<open>The splitter at the separator, and on blank input\<close>

lemma py_find_strip:
  assumes f: "py_find sep s = Some k" and ne: "sep \<noteq> []"
    and h: "\<not> P (hd sep)" and l: "\<not> P (last sep)"
  defines "lp \<equiv> dropWhile P (take k s)"
    and "rp \<equiv> rev (dropWhile P (rev (drop (k + length sep) s)))"
  shows "strip_by P s = lp @ sep @ rp" and "py_find sep (strip_by P s) = Some (length lp)"
proof -
  let ?pre = "take k s" and ?post = "drop (k + length sep) s"
  have s: "s = ?pre @ sep @ ?post" by (rule py_find_decomp [OF f])
  have k: "length ?pre = k" using py_find_bound [OF f] by simp
  show st: "strip_by P s = lp @ sep @ rp"
    using strip_by_append_mid [OF ne h l, of ?pre ?post] s unfolding lp_def rp_def by simp
  define n where "n = length (takeWhile P ?pre)"
  have lp: "lp = drop n ?pre" unfolding lp_def n_def by (rule dropWhile_eq_drop)
  have n: "n + length lp = k" using k lp n_def length_takeWhile_le [of P ?pre] by simp
  have "py_find sep (lp @ sep @ rp) = Some (length lp)"
  proof (rule py_find_intro)
    show "prefix sep (drop (length lp) (lp @ sep @ rp))" by simp
    show "length lp \<le> length (lp @ sep @ rp)" by simp
    show "\<forall>j<length lp. \<not> prefix sep (drop j (lp @ sep @ rp))"
    proof (intro allI impI)
      fix j assume j: "j < length lp"
      then have jn: "j + n < k" "j + n \<le> length ?pre" "n \<le> length ?pre" using n k by simp_all
      have "drop j (lp @ sep) = drop (j + n) (?pre @ sep)"
        using j jn lp by (simp add: add.commute)
      moreover have "\<not> prefix sep (drop (j + n) (?pre @ sep @ ?post))"
        using py_find_first [OF f jn(1)] s by simp
      ultimately show "\<not> prefix sep (drop j (lp @ sep @ rp))"
        using prefix_drop_append [of j lp sep rp] prefix_drop_append [of "j + n" ?pre sep ?post] j jn
        by simp
    qed
  qed
  with st show "py_find sep (strip_by P s) = Some (length lp)" by simp
qed

lemma SEP_facts: "SEP \<noteq> []" "\<not> isspace (hd SEP)" "\<not> isspace (last SEP)" "length SEP = 3"
  by (simp_all add: SEP_def isspace_def)

lemma parse_separator:
  assumes f: "py_find SEP raw = Some k"
  shows "parse_gigachat_response ua raw
         = Inr (clean_phrase (py_strip (take k raw)), py_strip (drop (k + 3) raw))"
proof -
  define lp where "lp = dropWhile isspace (take k raw)"
  define rp where "rp = rev (dropWhile isspace (rev (drop (k + length SEP) raw)))"
  have st: "py_strip raw = lp @ SEP @ rp" and fs: "py_find SEP (py_strip raw) = Some (length lp)"
    using py_find_strip [OF f SEP_facts(1-3)] unfolding lp_def rp_def py_strip_def by simp_all
  have c: "py_contains SEP (py_strip raw)" using fs by (simp add: py_contains_def)
  have sp: "py_split1 SEP (py_strip raw) = Inr [lp, rp]"
    using fs st by (simp add: py_split1_def SEP_facts)
  have "split_at_separator (py_strip raw) = Inr (py_strip lp, py_strip rp)"
    by (simp add: split_at_separator_def sp py_index_def)
  moreover have "py_strip lp = py_strip (take k raw)"
    unfolding lp_def py_strip_def by (rule strip_by_dropWhile)
  moreover have "py_strip rp = py_strip (drop (k + 3) raw)"
    unfolding rp_def py_strip_def SEP_facts by (rule strip_by_rdrop)
  ultimately show ?thesis
    using c by (simp add: parse_gigachat_response_def py_strip_def strip_by_idem)
qed

lemma sublist_strip_by: "sublist (strip_by P s) s"
proof -
  have "sublist (rev (dropWhile P (rev (dropWhile P s)))) (dropWhile P s)"
    by (metis sublist_rev_left suffix_dropWhile suffix_imp_sublist sublist_rev)
  moreover have "sublist (dropWhile P s) s"
    by (simp add: suffix_dropWhile suffix_imp_sublist)
  ultimately show ?thesis unfolding strip_by_def by (rule sublist_order.order.trans)
qed

lemma no_sep_strip: "\<not> py_contains sep s \<Longrightarrow> \<not> py_contains sep (strip_by P s)"
  unfolding py_contains_sublist using sublist_strip_by sublist_order.order.trans by blast

lemma py_split_ws_Nil [simp]: "py_split_ws [] = []"
  by (simp add: py_split_ws.simps)

lemma split_by_lines_total: "\<exists>p e. split_by_lines ua response = Inr (p, e)"
  by (cases "scan_lines ua (map py_strip (filter (\<lambda>line. py_strip line \<noteq> []) (split_all NL response)))")
     (simp add: split_by_lines_def nonempty_lines_def py_split_def NL_def py_index_def)

lemma split_at_separator_total: "\<exists>p e. split_at_separator response = Inr (p, e)"
  by (simp add: split_at_separator_def py_split1_def SEP_facts py_index_def split: option.splits)

lemma parse_total_aux: "\<exists>p e. parse_gigachat_response ua raw = Inr (p, e)"
proof -
  obtain p e where "(if py_contains SEP (py_strip raw) then split_at_separator (py_strip raw)
            else split_by_lines ua (py_strip raw)) = Inr (p, e)"
    using split_by_lines_total split_at_separator_total by (metis (full_types))
  then show ?thesis by (simp add: parse_gigachat_response_def)
qed

lemma parse_blank:
  assumes "\<forall>c\<in>set raw. isspace c"
  shows "parse_gigachat_response ua raw = Inr ([], [])"
proof -
  have r: "py_strip raw = []" using assms by (simp add: py_strip_def strip_by_Nil_iff)
  have "split_all NL [] = [[]]" by (simp add: split_all.simps NL_def)
  then have "split_by_lines ua [] = Inr ([], [])"
    by (simp add: split_by_lines_def nonempty_lines_def py_split_def NL_def py_strip_def strip_by_def)
  moreover have "\<not> py_contains SEP []" by (simp add: py_contains_def SEP_def)
  moreover have "clean_phrase [] = []"
    by (simp add: clean_phrase_def py_strip_def py_strip_chars_def strip_by_def)
  moreover have "py_strip [] = []" by (simp add: py_strip_def strip_by_def)
  ultimately show ?thesis unfolding parse_gigachat_response_def Let_def r by simp
qed

subsection \<open>Words and joins\<close>

lemma sublist_trans: "sublist xs ys \<Longrightarrow> sublist ys zs \<Longrightarrow> sublist xs zs"
  by (rule sublist_order.order.trans)

lemma py_split_ws_words:
  "w \<in> set (py_split_ws s) \<Longrightarrow> w \<noteq> [] \<and> (\<forall>c\<in>set w. \<not> isspace c) \<and> sublist w s"
proof (induction s rule: py_split_ws.induct)
  case (1 s)
  show ?case
  proof (cases "dropWhile isspace s")
    case Nil
    with "1.prems" show ?thesis by (simp add: py_split_ws.simps)
  next
    case (Cons c cs)
    have c: "\<not> isspace c" using Cons by (metis hd_dropWhile list.distinct(1) list.sel(1))
    have sub: "sublist (c # cs) s" using Cons by (metis sublist_dropWhile)
    from "1.prems" Cons
    consider "w = takeWhile (\<lambda>x. \<not> isspace x) (c # cs)"
      | "w \<in> set (py_split_ws (dropWhile (\<lambda>x. \<not> isspace x) (c # cs)))"
      by (auto simp: py_split_ws.simps [of s])
    then show ?thesis
    proof cases
      case 1
      have "sublist w (c # cs)" unfolding 1 by (rule sublist_takeWhile)
      moreover have "\<forall>x\<in>set w. \<not> isspace x" unfolding 1 by (auto dest: set_takeWhileD)
      moreover have "w \<noteq> []" unfolding 1 using c by simp
      ultimately show ?thesis using sub sublist_trans by blast
    next
      case 2
      from "1.IH" [OF Cons 2]
      have "w \<noteq> []" "\<forall>c\<in>set w. \<not> isspace c"
        and "sublist w (dropWhile (\<lambda>x. \<not> isspace x) (c # cs))" by auto
      moreover have "sublist (dropWhile (\<lambda>x. \<not> isspace x) (c # cs)) (c # cs)"
        by (rule sublist_dropWhile)
      ultimately show ?thesis using sub sublist_trans by blast
    qed
  qed
qed

lemma py_split_ws_space: "isspace x \<Longrightarrow> py_split_ws (x # r) = py_split_ws r"
  by (simp add: py_split_ws.simps [of "x # r"] py_split_ws.simps [of r])

lemma py_split_ws_word:
  assumes "w \<noteq> []" "\<forall>c\<in>set w. \<not> isspace c"
  shows "py_split_ws w = [w]" and "isspace x \<Longrightarrow> py_split_ws (w @ x # r) = w # py_split_ws r"
proof -
  from assms obtain c cs where w: "w = c # cs" and c: "\<not> isspace c" by (cases w) auto
  have 0: "dropWhile isspace w = c # cs" using c by (simp add: w)
  have t: "takeWhile (\<lambda>x. \<not> isspace x) (c # cs) = w"
    using assms(2) unfolding w by (simp add: takeWhile_eq_all_conv)
  have d: "dropWhile (\<lambda>x. \<not> isspace x) (c # cs) = []"
    using assms(2) unfolding w by simp
  have "py_split_ws w = w # py_split_ws []"
    by (subst py_split_ws.simps) (simp only: 0 t d list.case)
  then show "py_split_ws w = [w]" by (simp add: py_split_ws.simps [of "[]"])
  assume x: "isspace x"
  have 1: "dropWhile isspace (w @ x # r) = c # (cs @ x # r)" using c by (simp add: w)
  have 2: "takeWhile (\<lambda>x. \<not> isspace x) (c # (cs @ x # r)) = w"
    using assms(2) x takeWhile_append2 [of w "\<lambda>x. \<not> isspace x" "x # r"] by (simp add: w)
  have 3: "dropWhile (\<lambda>x. \<not> isspace x) (c # (cs @ x # r)) = x # r"
    using assms(2) x dropWhile_append2 [of w "\<lambda>x. \<not> isspace x" "x # r"] by (simp add: w)
  have "py_split_ws (w @ x # r) = w # py_split_ws (x # r)"
    by (subst py_split_ws.simps) (simp only: 1 2 3 list.case)
  then show "py_split_ws (w @ x # r) = w # py_split_ws r"
    using x by (simp add: py_split_ws_space)
qed

lemma py_split_ws_join: "words_ok ws \<Longrightarrow> py_split_ws (py_join SP ws) = ws"
proof (induction ws)
  case Nil
  show ?case by (simp add: py_split_ws.simps [of "[]"])
next
  case (Cons x ws)
  then have x: "x \<noteq> []" "\<forall>c\<in>set x. \<not> isspace c" and ok: "words_ok ws"
    by (simp_all add: words_ok_def)
  show ?case
  proof (cases ws)
    case Nil
    then show ?thesis using py_split_ws_word(1) [OF x] by simp
  next
    case (Cons y ys)
    have "isspace 32" by (simp add: isspace_def)
    from py_split_ws_word(2) [OF x this, of "py_join SP ws"] Cons.IH [OF ok]
    show ?thesis by (simp add: Cons SP_def)
  qed
qed

lemma py_join_ends:
  assumes "ws \<noteq> []" "\<forall>w\<in>set ws. w \<noteq> []"
  shows "py_join sep ws \<noteq> []" and "hd (py_join sep ws) = hd (hd ws)"
    and "last (py_join sep ws) = last (last ws)"
  using assms by (induction sep ws rule: py_join.induct) auto

lemma py_join_set:
  "set (py_join sep ws) \<subseteq> \<Union> (set ` set ws) \<union> set sep"
  by (induction sep ws rule: py_join.induct) auto

lemma strip_trimmed_join:
  assumes "\<forall>w\<in>set ws. w \<noteq> [] \<and> \<not> isspace (hd w) \<and> \<not> isspace (last w)"
  shows "py_strip (py_join sep ws) = py_join sep ws"
proof (cases "ws = []")
  case True
  then show ?thesis by (simp add: py_strip_def strip_by_def)
next
  case False
  with assms have "hd ws \<in> set ws" "last ws \<in> set ws" by simp_all
  with assms py_join_ends [OF False, of sep] show ?thesis
    unfolding py_strip_def by (intro strip_by_id) auto
qed

lemma words_ok_trimmed:
  "words_ok ws \<Longrightarrow> \<forall>w\<in>set ws. w \<noteq> [] \<and> \<not> isspace (hd w) \<and> \<not> isspace (last w)"
  by (auto simp: words_ok_def)

lemma words_ok_split: "words_ok (py_split_ws s)"
  using py_split_ws_words by (auto simp: words_ok_def)

text \<open>The phrase after cleaning is in normal form.\<close>

lemma clean_phrase_normal:
  fixes t
  defines "p \<equiv> clean_phrase t"
  shows "py_strip p = p" and "py_join SP (py_split_ws p) = p"
    and "\<forall>c\<in>set p. isspace c \<longrightarrow> c = 32"
proof -
  let ?ws = "py_split_ws (py_strip (py_strip_chars BRACKETS t))"
  have ok: "words_ok ?ws" by (rule words_ok_split)
  have p: "p = py_join SP ?ws" by (simp add: p_def clean_phrase_def)
  show "py_strip p = p" unfolding p by (rule strip_trimmed_join [OF words_ok_trimmed [OF ok]])
  show "py_join SP (py_split_ws p) = p" unfolding p by (simp add: py_split_ws_join [OF ok])
  show "\<forall>c\<in>set p. isspace c \<longrightarrow> c = 32"
    using py_join_set [of SP ?ws] ok unfolding p by (auto simp: words_ok_def SP_def)
qed

lemma sublist_join:
  assumes "sublist sep (py_join [d] ws)" "d \<notin> set sep" "sep \<noteq> []"
  shows "\<exists>w\<in>set ws. sublist sep w"
  using assms(1)
proof (induction ws)
  case Nil
  with assms(3) show ?case by simp
next
  case (Cons x ws)
  show ?case
  proof (cases ws)
    case Nil
    with Cons.prems show ?thesis by simp
  next
    case (Cons y ys)
    let ?r = "py_join [d] ws"
    from Cons.prems Cons have "sublist sep (x @ d # ?r)" by simp
    then have "sublist sep x \<or> sublist sep (d # ?r)
        \<or> (\<exists>xs1 xs2. sep = xs1 @ xs2 \<and> suffix xs1 x \<and> prefix xs2 (d # ?r))"
      by (simp only: sublist_append)
    moreover have "sublist sep ?r" if "sublist sep (d # ?r)"
    proof -
      have "\<not> prefix sep (d # ?r)" using assms(2,3) by (cases sep) auto
      with that show ?thesis by (simp add: sublist_Cons_right)
    qed
    moreover have "sublist sep x"
      if "sep = xs1 @ xs2" "suffix xs1 x" "prefix xs2 (d # ?r)" for xs1 xs2
    proof (cases xs2)
      case Nil
      with that show ?thesis by auto
    next
      case (Cons z zs)
      with that(3) have "z = d" by simp
      with that(1) Cons assms(2) show ?thesis by simp
    qed
    ultimately have "sublist sep x \<or> sublist sep ?r" by blast
    with Cons.IH show ?thesis by auto
  qed
qed

lemma no_sep_clean_phrase:
  assumes "\<not> py_contains SEP t"
  shows "\<not> py_contains SEP (clean_phrase t)"
proof
  assume "py_contains SEP (clean_phrase t)"
  then have "sublist SEP (py_join [32] (py_split_ws (py_strip (py_strip_chars BRACKETS t))))"
    by (simp add: py_contains_sublist clean_phrase_def SP_def)
  then obtain w where w: "w \<in> set (py_split_ws (py_strip (py_strip_chars BRACKETS t)))"
    and s: "sublist SEP w"
    using sublist_join [of SEP 32] by (auto simp: SEP_def)
  from py_split_ws_words [OF w] have "sublist w (py_strip (py_strip_chars BRACKETS t))" by simp
  moreover have "sublist (py_strip (py_strip_chars BRACKETS t)) (py_strip_chars BRACKETS t)"
    unfolding py_strip_def by (rule sublist_strip_by)
  moreover have "sublist (py_strip_chars BRACKETS t) t"
    unfolding py_strip_chars_def by (rule sublist_strip_by)
  ultimately have "sublist SEP t" using s sublist_trans by blast
  with assms show False by (simp add: py_contains_sublist)
qed

subsection \<open>Lines\<close>

lemma split_all_Nil: "d \<noteq> [] \<Longrightarrow> split_all d [] = [[]]"
  by (simp add: split_all.simps)

lemma split_all_sep: "split_all [d] (d # xs) = [] # split_all [d] xs"
  by (subst split_all.simps) simp

lemma split_all_other:
  assumes "x \<noteq> d"
  shows "split_all [d] (x # xs) = (x # hd (split_all [d] xs)) # tl (split_all [d] xs)"
proof (cases "py_find [d] xs")
  case None
  then have "split_all [d] xs = [xs]" by (simp add: split_all.simps)
  moreover have "split_all [d] (x # xs) = [x # xs]"
    using None assms by (subst split_all.simps) simp
  ultimately show ?thesis by simp
next
  case (Some i)
  then have "split_all [d] xs = take i xs # split_all [d] (drop (i + 1) xs)"
    by (subst split_all.simps) simp
  moreover have "split_all [d] (x # xs) = (x # take i xs) # split_all [d] (drop (i + 1) xs)"
    using Some assms by (subst split_all.simps) simp
  ultimately show ?thesis by simp
qed

lemma split_all_nonempty: "split_all sep s \<noteq> []"
  by (subst split_all.simps) (simp split: option.splits)

lemma join_split_all: "py_join [d] (split_all [d] s) = s"
proof (induction s)
  case Nil
  show ?case by (simp add: split_all_Nil)
next
  case (Cons x xs)
  obtain h t where L: "split_all [d] xs = h # t"
    using split_all_nonempty [of "[d]" xs] by (cases "split_all [d] xs") auto
  show ?case
  proof (cases "x = d")
    case True
    with Cons L show ?thesis by (simp add: split_all_sep)
  next
    case False
    with Cons L show ?thesis by (cases t) (simp_all add: split_all_other)
  qed
qed

lemma split_all_snoc:
  "split_all [d] (xs @ [x])
   = (if x = d then split_all [d] xs @ [[]]
      else butlast (split_all [d] xs) @ [last (split_all [d] xs) @ [x]])"
proof (induction xs)
  case Nil
  show ?case
    by (cases "x = d") (simp_all add: split_all_sep split_all_other split_all_Nil)
next
  case (Cons y ys)
  obtain h t where L: "split_all [d] ys = h # t"
    using split_all_nonempty [of "[d]" ys] by (cases "split_all [d] ys") auto
  show ?case
  proof (cases "y = d")
    case True
    with Cons L show ?thesis by (simp add: split_all_sep)
  next
    case False
    with Cons L show ?thesis by (cases t) (simp_all add: split_all_other)
  qed
qed

lemma split_all_sublist: "x \<in> set (split_all sep s) \<Longrightarrow> sublist x s"
proof (induction sep s rule: split_all.induct)
  case (1 sep s)
  show ?case
  proof (cases "sep = [] \<or> py_find sep s = None")
    case True
    then have "split_all sep s = [s]" by (subst split_all.simps) auto
    with "1.prems" show ?thesis by simp
  next
    case False
    then obtain i where i: "py_find sep s = Some i" and ne: "sep \<noteq> []" by auto
    then have "split_all sep s = take i s # split_all sep (drop (i + length sep) s)"
      by (subst split_all.simps) simp
    with "1.prems"
    consider "x = take i s" | "x \<in> set (split_all sep (drop (i + length sep) s))"
      by auto
    then show ?thesis
    proof cases
      case 1
      then show ?thesis by simp
    next
      case 2
      from "1.IH" [OF ne i 2] have "sublist x (drop (i + length sep) s)" .
      then show ?thesis using sublist_drop sublist_trans by blast
    qed
  qed
qed

lemma split_all_none: "\<not> py_contains sep s \<Longrightarrow> split_all sep s = [s]"
  by (subst split_all.simps) (simp add: py_contains_def)

lemma nonempty_lines_eq: "nonempty_lines s = Inr (trimmed_lines s)"
  by (simp add: nonempty_lines_def trimmed_lines_def py_split_def NL_def)

lemma strip_by_Cons: "P x \<Longrightarrow> strip_by P (x # s) = strip_by P s"
  by (simp add: strip_by_def)

lemma strip_by_snoc:
  assumes "P x"
  shows "strip_by P (s @ [x]) = strip_by P s"
proof (cases "\<forall>y\<in>set s. P y")
  case True
  then have "strip_by P s = []" by (simp only: strip_by_Nil_iff)
  moreover from True assms have "strip_by P (s @ [x]) = []" by (simp add: strip_by_Nil_iff)
  ultimately show ?thesis by simp
next
  case False
  then have "dropWhile P (s @ [x]) = dropWhile P s @ [x]" by (simp add: dropWhile_append)
  with assms show ?thesis by (simp add: strip_by_def)
qed

lemma trimmed_lines_Cons:
  assumes "isspace x"
  shows "trimmed_lines (x # xs) = trimmed_lines xs"
proof -
  obtain h t where L: "split_all [10] xs = h # t"
    using split_all_nonempty [of "[10]" xs] by (cases "split_all [10] xs") auto
  have e: "py_strip [] = []" by (simp add: py_strip_def strip_by_def)
  show ?thesis
  proof (cases "x = 10")
    case True
    then show ?thesis by (simp add: trimmed_lines_def NL_def split_all_sep e)
  next
    case False
    have "py_strip (x # h) = py_strip h" using assms by (simp add: py_strip_def strip_by_Cons)
    with False L show ?thesis by (simp add: trimmed_lines_def NL_def split_all_other)
  qed
qed

lemma trimmed_lines_snoc:
  assumes "isspace x"
  shows "trimmed_lines (xs @ [x]) = trimmed_lines xs"
proof -
  let ?L = "split_all [10] xs"
  have ne: "?L \<noteq> []" by (rule split_all_nonempty)
  have e: "py_strip [] = []" by (simp add: py_strip_def strip_by_def)
  show ?thesis
  proof (cases "x = 10")
    case True
    then show ?thesis by (simp add: trimmed_lines_def NL_def split_all_snoc e)
  next
    case False
    have s: "py_strip (last ?L @ [x]) = py_strip (last ?L)"
      using assms by (simp add: py_strip_def strip_by_snoc)
    have "?L = butlast ?L @ [last ?L]" using ne by simp
    then have "trimmed_lines xs
        = map py_strip (filter (\<lambda>line. py_strip line \<noteq> []) (butlast ?L @ [last ?L]))"
      by (simp add: trimmed_lines_def NL_def)
    with False s show ?thesis by (simp add: trimmed_lines_def NL_def split_all_snoc)
  qed
qed

lemma trimmed_lines_dropWhile: "trimmed_lines (dropWhile isspace s) = trimmed_lines s"
  by (induction s) (simp_all add: trimmed_lines_Cons)

lemma trimmed_lines_strip: "trimmed_lines (py_strip s) = trimmed_lines s"
proof -
  have "trimmed_lines (rev (dropWhile isspace (rev t))) = trimmed_lines t" for t
    by (induction t rule: rev_induct) (simp_all add: trimmed_lines_snoc)
  from this [of "dropWhile isspace s"] show ?thesis
    by (simp add: py_strip_def strip_by_def trimmed_lines_dropWhile)
qed

lemma trimmed_lines_ok:
  "\<forall>l\<in>set (trimmed_lines s). l \<noteq> [] \<and> \<not> isspace (hd l) \<and> \<not> isspace (last l)"
  using strip_by_ends [of isspace] by (auto simp: trimmed_lines_def py_strip_def)

lemma trimmed_lines_sublist:
  assumes "l \<in> set (trimmed_lines s)"
  shows "sublist l s"
proof -
  from assms obtain r where r: "r \<in> set (split_all NL s)" and l: "l = py_strip r"
    by (auto simp: trimmed_lines_def)
  have "sublist l r" unfolding l py_strip_def by (rule sublist_strip_by)
  moreover have "sublist r s" using r by (rule split_all_sublist)
  ultimately show ?thesis by (rule sublist_trans)
qed

lemma trimmed_lines_Nil:
  assumes "trimmed_lines s = []"
  shows "py_strip s = []"
proof -
  have blank: "\<forall>c\<in>set l. isspace c" if "l \<in> set (split_all [10] s)" for l
  proof -
    from assms have "filter (\<lambda>line. py_strip line \<noteq> []) (split_all [10] s) = []"
      by (simp add: trimmed_lines_def NL_def)
    with that have "py_strip l = []" by (simp add: filter_empty_conv)
    then show ?thesis by (simp only: py_strip_def strip_by_Nil_iff)
  qed
  have "set s \<subseteq> \<Union> (set ` set (split_all [10] s)) \<union> set [10]"
    using py_join_set [of "[10]" "split_all [10] s"] by (simp only: join_split_all)
  moreover have "isspace 10" by (simp add: isspace_def)
  ultimately have "\<forall>c\<in>set s. isspace c" using blank by fastforce
  then show ?thesis by (simp only: py_strip_def strip_by_Nil_iff)
qed

subsection \<open>The splitter without a separator\<close>

lemma ascii_letter_isalpha: "(py_isalpha ua c \<and> c < 128) = ascii_letter c"
  unfolding py_isalpha_def ascii_letter_def by (cases "c < 128") simp_all

lemma has_latin_ascii: "has_latin ua line = list_ex ascii_letter line"
  by (simp add: has_latin_def ascii_letter_isalpha)

lemma scan_lines_eq:
  "scan_lines ua ls
   = (case dropWhile (\<lambda>l. \<not> target_line l) ls of
        [] \<Rightarrow> ([], [])
      | l # rest \<Rightarrow> (l, if rest \<noteq> [] then py_strip (py_join NL rest) else []))"
  by (induction ls) (simp_all add: target_line_def has_latin_ascii has_cyrillic_def)

lemma contains_strip_iff: "py_contains SEP (py_strip s) \<longleftrightarrow> py_contains SEP s"
proof
  assume "py_contains SEP (py_strip s)"
  then show "py_contains SEP s"
    using no_sep_strip [of SEP s isspace] by (auto simp: py_strip_def)
next
  assume "py_contains SEP s"
  then obtain k where "py_find SEP s = Some k" by (auto simp: py_contains_def)
  from py_find_strip(2) [OF this SEP_facts(1-3)] show "py_contains SEP (py_strip s)"
    by (simp add: py_contains_def py_strip_def)
qed

lemma strip_join_lines:
  assumes "set ls \<subseteq> set (trimmed_lines s)"
  shows "py_strip (py_join NL ls) = py_join NL ls"
  using assms trimmed_lines_ok [of s] by (intro strip_trimmed_join) blast

lemma fallback_choice_subset: "set (fallback_choice ls) \<subseteq> set ls"
proof (cases "dropWhile (\<lambda>l. \<not> target_line l) ls")
  case Nil
  then show ?thesis by (simp only: fallback_choice_def list.case)
next
  case (Cons l rest)
  have "set (dropWhile (\<lambda>l. \<not> target_line l) ls) \<subseteq> set ls"
    by (auto dest: set_dropWhileD)
  then show ?thesis by (simp only: fallback_choice_def Cons list.case)
qed

lemma split_by_lines_unfold:
  assumes "nonempty_lines response = Inr lines"
  shows "split_by_lines ua response
         = (case scan_lines ua lines of
              (english_text, explanation) \<Rightarrow>
                if english_text = [] then
                  Inr (if lines \<noteq> [] then hd lines else response,
                       if 1 < length lines then py_strip (py_join NL (drop 1 lines)) else [])
                else Inr (english_text, explanation))"
  by (cases lines) (simp_all add: split_by_lines_def assms py_index_def split: prod.splits)

lemma split_by_lines_eq:
  "split_by_lines ua (py_strip raw)
   = Inr (case fallback_choice (trimmed_lines raw) of
            [] \<Rightarrow> ([], [])
          | l # rest \<Rightarrow> (l, py_join NL rest))"
proof -
  define ls where "ls = trimmed_lines raw"
  define found where "found = dropWhile (\<lambda>l. \<not> target_line l) ls"
  define resp where "resp = py_strip raw"
  have "nonempty_lines resp = Inr ls"
    by (simp add: nonempty_lines_eq trimmed_lines_strip ls_def resp_def)
  note sbl = split_by_lines_unfold [OF this, of ua]
  have ok: "\<forall>l\<in>set ls. l \<noteq> [] \<and> \<not> isspace (hd l) \<and> \<not> isspace (last l)"
    unfolding ls_def by (rule trimmed_lines_ok)
  have sub: "set found \<subseteq> set ls" unfolding found_def by (auto dest: set_dropWhileD)
  have sc: "scan_lines ua ls
      = (case found of [] \<Rightarrow> ([], [])
         | l # rest \<Rightarrow> (l, if rest \<noteq> [] then py_strip (py_join NL rest) else []))"
    unfolding found_def by (rule scan_lines_eq)
  have fc: "fallback_choice ls = (case found of [] \<Rightarrow> ls | l # rest \<Rightarrow> l # rest)"
    unfolding found_def by (rule fallback_choice_def)
  have st: "py_strip (py_join NL rest) = py_join NL rest" if "set rest \<subseteq> set ls" for rest
    using that ok by (intro strip_trimmed_join) blast
  have "split_by_lines ua resp
        = Inr (case fallback_choice ls of [] \<Rightarrow> ([], []) | l # rest \<Rightarrow> (l, py_join NL rest))"
  proof (cases found)
    case Nil
    show ?thesis
    proof (cases ls)
      case Nil
      then have "resp = []" using trimmed_lines_Nil ls_def resp_def by simp
      with Nil \<open>found = []\<close> sbl sc fc show ?thesis by simp
    next
      case (Cons l rest)
      then have "set rest \<subseteq> set ls" by auto
      from st [OF this] Cons \<open>found = []\<close> sbl sc fc show ?thesis
        by (cases rest) simp_all
    qed
  next
    case (Cons l rest)
    with sub have l: "l \<in> set ls" and r: "set rest \<subseteq> set ls" by auto
    from l ok have "l \<noteq> []" by blast
    with st [OF r] Cons sbl sc fc show ?thesis
      by (cases rest) simp_all
  qed
  then show ?thesis by (simp only: ls_def resp_def)
qed

lemma clean_phrase_Nil: "clean_phrase [] = []"
  by (simp add: clean_phrase_def py_strip_def py_strip_chars_def strip_by_def)

lemma parse_no_separator:
  assumes "\<not> py_contains SEP raw"
  shows "parse_gigachat_response ua raw
         = Inr (case fallback_choice (trimmed_lines raw) of
                  [] \<Rightarrow> ([], [])
                | l # rest \<Rightarrow> (clean_phrase l, py_join NL rest))"
proof -
  define ch where "ch = fallback_choice (trimmed_lines raw)"
  have c: "\<not> py_contains SEP (py_strip raw)" using assms by (simp add: contains_strip_iff)
  have e: "py_strip [] = []" by (simp add: py_strip_def strip_by_def)
  have sub: "set ch \<subseteq> set (trimmed_lines raw)"
    unfolding ch_def by (rule fallback_choice_subset)
  have sb: "split_by_lines ua (py_strip raw)
        = Inr (case ch of [] \<Rightarrow> ([], []) | l # rest \<Rightarrow> (l, py_join NL rest))"
    unfolding ch_def by (rule split_by_lines_eq)
  have "parse_gigachat_response ua raw
        = Inr (case ch of [] \<Rightarrow> ([], []) | l # rest \<Rightarrow> (clean_phrase l, py_join NL rest))"
  proof (cases ch)
    case Nil
    with c show ?thesis by (simp add: parse_gigachat_response_def sb clean_phrase_Nil e)
  next
    case (Cons l rest)
    with sub have "set rest \<subseteq> set (trimmed_lines raw)" by auto
    then have "py_strip (py_join NL rest) = py_join NL rest" by (rule strip_join_lines)
    with Cons c show ?thesis by (simp add: parse_gigachat_response_def sb)
  qed
  then show ?thesis by (simp only: ch_def)
qed

subsection \<open>The cleaning of the phrase\<close>

lemma drop_leading_eq: "drop_leading P s = dropWhile P s"
  by (induction s) simp_all

lemma drop_trailing_eq: "drop_trailing P s = rev (dropWhile P (rev s))"
proof (induction s)
  case Nil
  show ?case by simp
next
  case (Cons x xs)
  show ?case
  proof (cases "\<forall>y\<in>set xs. P y")
    case True
    then have d: "rev (dropWhile P (rev xs)) = []" by simp
    with Cons have "drop_trailing P xs = []" by (simp only:)
    then have l: "drop_trailing P (x # xs) = (if P x then [] else [x])" by simp
    from True have "dropWhile P (rev xs @ [x]) = dropWhile P [x]"
      by (simp add: dropWhile_append)
    then have "rev (dropWhile P (rev (x # xs))) = (if P x then [] else [x])" by simp
    with l show ?thesis by (simp only:)
  next
    case False
    then have ne: "rev (dropWhile P (rev xs)) \<noteq> []" by simp
    from False have a: "dropWhile P (rev xs @ [x]) = dropWhile P (rev xs) @ [x]"
      by (simp add: dropWhile_append)
    obtain y ys where y: "rev (dropWhile P (rev xs)) = y # ys"
      using ne by (cases "rev (dropWhile P (rev xs))") auto
    with Cons have "drop_trailing P xs = y # ys" by (simp only:)
    then have l: "drop_trailing P (x # xs) = x # y # ys" by simp
    have "rev (dropWhile P (rev (x # xs))) = x # rev (dropWhile P (rev xs))"
      using a by simp
    with l y show ?thesis by (simp only:)
  qed
qed

lemma without_ends_eq: "without_ends P s = strip_by P s"
  by (simp add: without_ends_def strip_by_def drop_leading_eq drop_trailing_eq)

lemma trimmed_eq: "without_ends isspace s = py_strip s"
  by (simp add: without_ends_eq py_strip_def)

lemma brackets_eq: "without_ends bracket s = py_strip_chars BRACKETS s"
proof -
  have "(\<lambda>c. c \<in> set BRACKETS) = bracket" by (auto simp: BRACKETS_def bracket_def)
  then show ?thesis by (simp add: without_ends_eq py_strip_chars_def)
qed

lemma collapse_from_True: "collapse_from True s = collapse_from False (dropWhile isspace s)"
  by (induction s) simp_all

lemma collapse_from_word:
  "\<forall>c\<in>set w. \<not> isspace c \<Longrightarrow> collapse_from False (w @ r) = w @ collapse_from False r"
  by (induction w) simp_all

lemma join_split_collapse:
  assumes "s = [] \<or> \<not> isspace (last s)"
  shows "py_join SP (py_split_ws s) = collapse_from False (dropWhile isspace s)"
  using assms
proof (induction s rule: py_split_ws.induct)
  case (1 s)
  show ?case
  proof (cases "dropWhile isspace s")
    case Nil
    then show ?thesis
      by (simp only: py_split_ws.simps [of s] list.case py_join.simps collapse_from.simps)
  next
    case (Cons c cs)
    define w where "w = takeWhile (\<lambda>x. \<not> isspace x) (c # cs)"
    define r where "r = dropWhile (\<lambda>x. \<not> isspace x) (c # cs)"
    have wr: "c # cs = w @ r" by (simp add: w_def r_def)
    have w: "\<forall>x\<in>set w. \<not> isspace x" unfolding w_def by (auto dest: set_takeWhileD)
    have sp: "py_split_ws s = w # py_split_ws r"
      by (subst py_split_ws.simps) (simp only: Cons list.case w_def r_def)
    have col: "collapse_from False (dropWhile isspace s) = w @ collapse_from False r"
      using collapse_from_word [OF w, of r] by (simp only: Cons wr)
    show ?thesis
    proof (cases r)
      case Nil
      then show ?thesis by (simp add: sp col py_split_ws.simps [of "[]"])
    next
      case (Cons x r')
      have x: "isspace x" using Cons hd_dropWhile [of "\<lambda>x. \<not> isspace x" "c # cs"]
        by (simp add: r_def)
      have "s = takeWhile isspace s @ dropWhile isspace s" by simp
      then have "s = (takeWhile isspace s @ w) @ r"
        using \<open>dropWhile isspace s = c # cs\<close> wr by (metis append.assoc)
      then obtain a where "s = a @ r" ..
      with Cons have "last s = last r" and "s \<noteq> []" by simp_all
      with "1.prems" have last: "\<not> isspace (last r)" by auto
      then have tr: "r = [] \<or> \<not> isspace (last r)" by simp
      have ih: "py_join SP (py_split_ws r) = collapse_from False (dropWhile isspace r)"
        using "1.IH" [OF \<open>dropWhile isspace s = c # cs\<close>] tr by (simp only: r_def)
      have dne: "dropWhile isspace r \<noteq> []"
      proof
        assume "dropWhile isspace r = []"
        then have "\<forall>y\<in>set r. isspace y" by simp
        with Cons last show False by (metis last_in_set list.distinct(1))
      qed
      then obtain y ys where sr: "py_split_ws r = y # ys"
        by (cases "dropWhile isspace r") (simp_all add: py_split_ws.simps [of r])
      have "collapse_from False r = 32 # collapse_from False (dropWhile isspace r)"
        using x by (simp add: Cons collapse_from_True)
      with ih sr show ?thesis by (simp add: sp col SP_def)
    qed
  qed
qed

lemma collapse_trimmed: "py_join SP (py_split_ws (py_strip t)) = collapse_runs (py_strip t)"
proof -
  let ?s = "py_strip t"
  have e: "?s = [] \<or> (\<not> isspace (hd ?s) \<and> \<not> isspace (last ?s))"
    using strip_by_ends [of isspace t] by (auto simp: py_strip_def)
  then have "dropWhile isspace ?s = ?s" by (cases ?s) auto
  with join_split_collapse [of ?s] e show ?thesis by (auto simp: collapse_runs_def)
qed

lemma clean_phrase_spec:
  "clean_phrase t = collapse_runs (without_ends isspace (without_ends bracket t))"
  by (simp add: clean_phrase_def collapse_trimmed trimmed_eq brackets_eq)

section \<open>The claims\<close>

lemmas eval_defs = SEP_def NL_def SP_def BRACKETS_def LBRACKET_def isspace_def py_strip_def
  py_strip_chars_def strip_by_def clean_phrase_def py_split_ws.simps

lemmas eval_io = deliver_def max_retries_def attempt_def bind_io_def lift_io_def channel_call_def
  generate_speech_def send_message_def sleep_def except_pass_def upt_rec

subsection \<open>C1: one separator\<close>

lemma occurrences_first: "occurrences sep s = k # ks \<Longrightarrow> py_find sep s = Some k"
proof (induction s arbitrary: k ks)
  case Nil
  then show ?case by (simp split: if_splits)
next
  case (Cons c cs)
  show ?case
  proof (cases "prefix sep (c # cs)")
    case True
    with Cons.prems show ?thesis by simp
  next
    case False
    with Cons.prems obtain k' ks' where "occurrences sep cs = k' # ks'" "k = Suc k'"
      by (auto simp: map_eq_Cons_conv)
    with Cons.IH False show ?thesis by simp
  qed
qed

lemmas eval_spec = without_ends_def bracket_def collapse_runs_def isspace_def

text \<open>
  C1 does not hold as it is written. The reply \<open>[ [a] ]\<close>, newline, \<open>---\<close>, newline,
  \<open>x\<close> has one separator and gives the phrase \<open>[a]\<close>, with a bracket at each end:
  the brackets are stripped once, and the whitespace that stood inside them is trimmed
  after that. Trimming, stripping the brackets and collapsing the whitespace, in this
  order and nothing more, would give \<open>[a]\<close> between two spaces.
\<close>

theorem bracket_left_at_ends:
  "occurrences SEP REPLY_NESTED = [8]
   \<and> parse_gigachat_response cyrillic REPLY_NESTED = Inr ([91, 97, 93], [120])
   \<and> bracket (hd [91, 97, 93]) \<and> bracket (last [91, 97, 93])
   \<and> collapse_runs (without_ends bracket (without_ends isspace (take 8 REPLY_NESTED)))
     = [32, 91, 97, 93, 32]"
  using parse_separator [of REPLY_NESTED 8 cyrillic]
  by (simp add: REPLY_NESTED_def eval_spec eval_defs)

text \<open>
  C1, amended. When the separator \<open>---\<close> occurs in the reply, first at position \<open>k\<close>
  (exactly once when \<open>ks\<close> is empty), the phrase is the text before it, trimmed, then
  without the brackets at its two ends, then trimmed again, then with every run of
  whitespace collapsed to one space; the explanation is the text after it, trimmed and
  otherwise unchanged. The notions on the right are those of the specification, not
  the operations of the program.
\<close>

theorem split_at_first_separator:
  assumes "occurrences SEP raw = k # ks"
  shows "parse_gigachat_response ua raw
         = Inr (collapse_runs
                  (without_ends isspace (without_ends bracket (without_ends isspace (take k raw)))),
                without_ends isspace (drop (k + 3) raw))"
  using parse_separator [OF occurrences_first [OF assms], of ua]
  by (simp add: clean_phrase_spec trimmed_eq)

theorem split_at_first_separator_witness:
  "occurrences SEP [91, 72, 105, 32, 32, 121, 111, 117, 93, 10, 45, 45, 45, 10, 32, 1044, 1072, 32]
     = [10]
   \<and> parse_gigachat_response cyrillic
       [91, 72, 105, 32, 32, 121, 111, 117, 93, 10, 45, 45, 45, 10, 32, 1044, 1072, 32]
     = Inr ([72, 105, 32, 121, 111, 117], [1044, 1072])"
  using split_at_first_separator
    [of "[91, 72, 105, 32, 32, 121, 111, 117, 93, 10, 45, 45, 45, 10, 32, 1044, 1072, 32]" 10 "[]"
        cyrillic]
  by (simp add: eval_spec SEP_def)

subsection \<open>C10: the splitter is total\<close>

text \<open>
  C10. On every input the splitter returns a pair and raises nothing: no index is out
  of range. On the empty string and on a string of whitespace only, where the list of
  lines is empty, the pair is two empty strings.
\<close>

theorem parse_total:
  "(\<exists>p e. parse_gigachat_response ua raw = Inr (p, e))
   \<and> (list_all isspace raw \<longrightarrow> parse_gigachat_response ua raw = Inr ([], []))"
  using parse_total_aux [of ua raw] parse_blank [of raw ua] by (simp add: list_all_iff)

theorem parse_total_witness:
  "list_all isspace [32, 10, 9] \<and> parse_gigachat_response (\<lambda>c. False) [32, 10, 9] = Inr ([], [])"
  using parse_total [of "\<lambda>c. False" "[32, 10, 9]"] by (simp add: isspace_def)

subsection \<open>C9: blank messages\<close>

text \<open>
  C9. For a message without text, with an empty text or with whitespace only, the
  handler makes one call and no other: it answers with the rejection message. The
  completion client is not called, no presence signal is sent and no speech is made.
\<close>

theorem blank_message_rejected:
  assumes "blank msg"
  shows "process_message w ua msg tr
         = (if channel_raises w tr (Answer REJECT_MESSAGE) then Inl ChannelError else Inr (),
            tr @ [Answer REJECT_MESSAGE])"
proof (cases msg)
  case None
  then show ?thesis by (simp add: process_message_def channel_call_def)
next
  case (Some t)
  with assms have "py_strip t = []"
    by (simp add: blank_def py_strip_def strip_by_Nil_iff list_all_iff)
  with Some show ?thesis by (simp add: process_message_def channel_call_def)
qed

theorem blank_message_rejected_witness:
  "blank (Some [32, 10, 9])
   \<and> process_message W_quiet (\<lambda>c. False) (Some [32, 10, 9]) []
     = (Inr (), [Answer REJECT_MESSAGE])"
  using blank_message_rejected [of "Some [32, 10, 9]" W_quiet "\<lambda>c. False" "[]"]
  by (simp add: blank_def isspace_def W_quiet_def)

subsection \<open>C4: speech synthesis that always fails\<close>

lemma attempt_fails:
  assumes "tts_fails (tts w (tr @ [SendChatAction RecordVoice]) (py_strip phrase))"
  shows "\<exists>e. attempt w phrase tr = (Inl e, tr @ attempt_calls w phrase tr)"
  using assms
  by (auto simp: attempt_def bind_io_def channel_call_def generate_speech_def lift_io_def
      tts_fails_def attempt_calls_def split: sum.splits)

text \<open>
  C4. For a phrase with a character that is not whitespace and a speech client that
  fails on every call, the delivery makes exactly two attempts, with one sleep of one
  second between them and none after the second, sends no voice message and sends the
  failure notice once. It returns normally whether or not sending the notice raises.
  Each attempt calls the speech client, unless its presence signal raised; when the
  presence signal goes through, these are exactly two synthesis calls.
\<close>

theorem speech_always_fails:
  assumes fails: "\<forall>h t. tts_fails (tts w h t)"
    and nonempty: "py_strip phrase \<noteq> []"
  shows "deliver w phrase tr
         = (Inr (),
            (let first = tr @ attempt_calls w phrase tr @ [Sleep 1]
             in first @ attempt_calls w phrase first @ [AnswerMarkdown ERROR_NOTE]))
         \<and> ((\<forall>h. \<not> channel_raises w h (SendChatAction RecordVoice))
              \<longrightarrow> deliver w phrase tr
                  = (Inr (),
                     tr @ [SendChatAction RecordVoice, GenerateSpeech (py_strip phrase), Sleep 1,
                           SendChatAction RecordVoice, GenerateSpeech (py_strip phrase),
                           AnswerMarkdown ERROR_NOTE]))"
proof -
  define first where "first = tr @ attempt_calls w phrase tr @ [Sleep 1]"
  from nonempty have ne: "phrase \<noteq> []" by (auto simp: py_strip_def strip_by_def)
  obtain e1 where a1: "attempt w phrase tr = (Inl e1, tr @ attempt_calls w phrase tr)"
    using attempt_fails fails by blast
  obtain e2 where a2: "attempt w phrase first = (Inl e2, first @ attempt_calls w phrase first)"
    using attempt_fails fails by blast
  have r: "[0..<max_retries] = [0, 1]" by (simp add: max_retries_def upt_rec)
  have "speech_loop w phrase max_retries [0, 1] tr
        = (Inr (), first @ attempt_calls w phrase first @ [AnswerMarkdown ERROR_NOTE])"
    using a1 a2 [unfolded first_def]
    by (simp add: max_retries_def bind_io_def sleep_def except_pass_def channel_call_def
        first_def)
  then have d: "deliver w phrase tr
        = (Inr (), first @ attempt_calls w phrase first @ [AnswerMarkdown ERROR_NOTE])"
    using ne nonempty by (simp add: deliver_def r)
  show ?thesis
  proof (intro conjI impI)
    show "deliver w phrase tr
         = (Inr (),
            (let first = tr @ attempt_calls w phrase tr @ [Sleep 1]
             in first @ attempt_calls w phrase first @ [AnswerMarkdown ERROR_NOTE]))"
      using d by (simp add: first_def Let_def)
  next
    assume "\<forall>h. \<not> channel_raises w h (SendChatAction RecordVoice)"
    then show "deliver w phrase tr
        = (Inr (),
           tr @ [SendChatAction RecordVoice, GenerateSpeech (py_strip phrase), Sleep 1,
                 SendChatAction RecordVoice, GenerateSpeech (py_strip phrase),
                 AnswerMarkdown ERROR_NOTE])"
      using d by (simp add: first_def attempt_calls_def)
  qed
qed

theorem speech_always_fails_witness:
  "channel_raises W_fail
      [SendChatAction RecordVoice, GenerateSpeech [72, 105], Sleep 1,
       SendChatAction RecordVoice, GenerateSpeech [72, 105]]
      (AnswerMarkdown ERROR_NOTE)
   \<and> deliver W_fail [72, 105] []
     = (Inr (),
        [SendChatAction RecordVoice, GenerateSpeech [72, 105], Sleep 1,
         SendChatAction RecordVoice, GenerateSpeech [72, 105], AnswerMarkdown ERROR_NOTE])"
  using speech_always_fails [of W_fail "[72, 105]" "[]"]
  by (simp add: W_fail_def tts_fails_def py_strip_def strip_by_def isspace_def
      attempt_calls_def)

subsection \<open>C6: empty audio\<close>

lemma attempt_agree:
  assumes "channel_raises w1 = channel_raises w2"
    and "\<forall>h t. tts w1 h t = tts w2 h t \<or> (tts_fails (tts w1 h t) \<and> tts_fails (tts w2 h t))"
  shows "attempt w1 phrase tr = attempt w2 phrase tr
         \<or> (\<exists>e1 e2 tr'. attempt w1 phrase tr = (Inl e1, tr') \<and> attempt w2 phrase tr = (Inl e2, tr'))"
proof -
  let ?h = "tr @ [SendChatAction RecordVoice]" and ?t = "py_strip phrase"
  from assms(2) consider "tts w1 ?h ?t = tts w2 ?h ?t"
    | "tts_fails (tts w1 ?h ?t)" "tts_fails (tts w2 ?h ?t)" by blast
  then show ?thesis
  proof cases
    case 1
    with assms(1) show ?thesis
      by (simp add: attempt_def bind_io_def channel_call_def generate_speech_def lift_io_def
          split: sum.splits)
  next
    case 2
    with assms(1) show ?thesis
      by (auto simp: attempt_def bind_io_def channel_call_def generate_speech_def lift_io_def
          tts_fails_def split: sum.splits)
  qed
qed

lemma speech_loop_agree:
  assumes "channel_raises w1 = channel_raises w2"
    and "\<forall>h t. tts w1 h t = tts w2 h t \<or> (tts_fails (tts w1 h t) \<and> tts_fails (tts w2 h t))"
  shows "speech_loop w1 phrase n ks tr = speech_loop w2 phrase n ks tr"
proof (induction ks arbitrary: tr)
  case Nil
  show ?case by simp
next
  case (Cons k ks)
  have c: "channel_call w1 = channel_call w2"
    using assms(1) by (auto simp: channel_call_def fun_eq_iff)
  from attempt_agree [OF assms, of phrase tr] show ?case
  proof (elim disjE exE conjE)
    assume "attempt w1 phrase tr = attempt w2 phrase tr"
    then show ?thesis
      by (cases "attempt w2 phrase tr") (auto simp: Cons.IH bind_io_def c split: sum.splits prod.splits)
  next
    fix e1 e2 tr'
    assume "attempt w1 phrase tr = (Inl e1, tr')" "attempt w2 phrase tr = (Inl e2, tr')"
    then show ?thesis
      by (auto simp: Cons.IH bind_io_def c split: sum.splits prod.splits)
  qed
qed

lemma attempt_events:
  "set (snd (attempt w phrase tr))
   \<subseteq> set tr \<union> {SendChatAction RecordVoice, GenerateSpeech (py_strip phrase)}
        \<union> {AnswerVoice a | a. a \<noteq> []}"
  by (auto simp: attempt_def bind_io_def channel_call_def generate_speech_def lift_io_def
      split: sum.splits if_splits)

lemma speech_loop_no_empty_voice:
  "AnswerVoice [] \<in> set (snd (speech_loop w phrase n ks tr)) \<Longrightarrow> AnswerVoice [] \<in> set tr"
proof (induction ks arbitrary: tr)
  case Nil
  then show ?case by simp
next
  case (Cons k ks)
  obtain r tr' where a: "attempt w phrase tr = (r, tr')" by (cases "attempt w phrase tr")
  have sub: "AnswerVoice [] \<in> set tr' \<Longrightarrow> AnswerVoice [] \<in> set tr"
    using attempt_events [of w phrase tr] a by auto
  show ?case
  proof (cases r)
    case (Inr u)
    with Cons.prems a sub show ?thesis by simp
  next
    case (Inl e)
    with Cons.prems a
    have "AnswerVoice [] \<in> set (snd (speech_loop w phrase n ks (tr' @ [Sleep 1])))
          \<or> AnswerVoice [] \<in> set (snd (speech_loop w phrase n ks (tr' @ [AnswerMarkdown ERROR_NOTE])))"
      by (auto simp: bind_io_def sleep_def except_pass_def channel_call_def split: if_splits)
    then have "AnswerVoice [] \<in> set tr'" using Cons.IH by fastforce
    then show ?thesis by (rule sub)
  qed
qed

text \<open>
  C6. A synthesis call that returns no bytes is treated as one that raises: two worlds
  that differ only in which of the two ways a failing call fails give the same events
  and the same result of the delivery (the same retries, sleeps and notice), and the
  delivery never sends an empty voice message.
\<close>

theorem empty_audio_is_failure:
  assumes "channel_raises w1 = channel_raises w2"
    and "\<forall>h t. tts w1 h t = tts w2 h t \<or> (tts_fails (tts w1 h t) \<and> tts_fails (tts w2 h t))"
  shows "deliver w1 phrase tr = deliver w2 phrase tr
         \<and> (AnswerVoice [] \<in> set (snd (deliver w1 phrase tr)) \<longrightarrow> AnswerVoice [] \<in> set tr)"
  using speech_loop_agree [OF assms] speech_loop_no_empty_voice [of w1 phrase]
  by (auto simp: deliver_def lift_io_def)

theorem empty_audio_is_failure_witness:
  "tts W_empty [SendChatAction RecordVoice] [72, 105] = Inr []
   \<and> tts W_raise [SendChatAction RecordVoice] [72, 105] = Inl ServiceError
   \<and> deliver W_empty [72, 105] [] = deliver W_raise [72, 105] []
   \<and> snd (deliver W_empty [72, 105] [])
     = [SendChatAction RecordVoice, GenerateSpeech [72, 105], Sleep 1,
        SendChatAction RecordVoice, GenerateSpeech [72, 105], AnswerMarkdown ERROR_NOTE]"
  using empty_audio_is_failure [of W_empty W_raise "[72, 105]" "[]"]
  by (simp add: W_empty_def W_raise_def tts_fails_def eval_io py_strip_def strip_by_def isspace_def)

subsection \<open>C3: the repair pass\<close>

lemma rescan_find: "rescan ua ls = List.find (qualifies ua) (map py_strip ls)"
proof (induction ls)
  case Nil
  show ?case by simp
next
  case (Cons l ls)
  have "has_alpha ua (py_strip l) \<Longrightarrow> py_strip l \<noteq> []" by (auto simp: has_alpha_def)
  with Cons show ?case by (auto simp: qualifies_def Let_def)
qed

text \<open>
  C3. When the phrase has a Cyrillic character, the repair pass replaces it by the
  first line of the raw reply (split at newlines, each line trimmed) that has an
  alphabetic character, no Cyrillic character, no separator and no leading bracket. When
  there is no such line the phrase stays as it is. The pass raises nothing, so the
  handler goes on.
\<close>

theorem repair_pass:
  assumes "has_cyrillic phrase"
  shows "repair ua raw phrase
         = Inr (case List.find (qualifies ua) (map py_strip (split_all NL raw)) of
                  Some line \<Rightarrow> line
                | None \<Rightarrow> phrase)"
  using assms by (simp add: repair_def py_split_def NL_def rescan_find split: option.splits)

theorem repair_pass_witness:
  "has_cyrillic [1055] \<and> repair (\<lambda>c. False) [1055, 10, 91, 97, 93, 10, 32, 104, 105] [1055] = Inr [104, 105]"
  using repair_pass [of "[1055]" "\<lambda>c. False" "[1055, 10, 91, 97, 93, 10, 32, 104, 105]"]
  by (simp add: has_cyrillic_def cyrillic_def qualifies_def has_alpha_def py_isalpha_def
      ascii_letter_def py_contains_def split_all.simps eval_defs)

subsection \<open>C2: no separator\<close>

lemmas eval_lines = trimmed_lines_def split_all.simps fallback_choice_def target_line_def
  ascii_letter_def cyrillic_def py_contains_def

text \<open>
  C2. When the reply does not contain the separator, it is cut into its non-empty
  trimmed lines. The phrase is the first line with an ASCII letter, no Cyrillic
  character and no leading bracket, and the explanation is the lines after it, joined
  with newlines. When no line qualifies the phrase is the first line and the
  explanation the other lines (\<open>fallback_choice\<close>); a reply without lines gives two empty
  strings. The phrase goes through the cleaning of C1.
\<close>

theorem split_without_separator:
  assumes "\<not> py_contains SEP raw"
  shows "parse_gigachat_response ua raw
         = Inr (case fallback_choice (trimmed_lines raw) of
                  [] \<Rightarrow> ([], [])
                | l # rest \<Rightarrow> (clean_phrase l, py_join NL rest))"
  using assms by (rule parse_no_separator)

theorem split_without_separator_witness:
  "\<not> py_contains SEP [1044, 1072, 10, 32, 32, 72, 105, 32, 32, 121, 111, 117, 32, 10, 10, 32, 111, 107]
   \<and> parse_gigachat_response cyrillic
        [1044, 1072, 10, 32, 32, 72, 105, 32, 32, 121, 111, 117, 32, 10, 10, 32, 111, 107]
     = Inr ([72, 105, 32, 121, 111, 117], [111, 107])"
  using split_without_separator
    [of "[1044, 1072, 10, 32, 32, 72, 105, 32, 32, 121, 111, 117, 32, 10, 10, 32, 111, 107]" cyrillic]
  by (simp add: eval_lines eval_defs)

subsection \<open>C7: the structure of the explanation\<close>

lemma parse_reply_lines:
  "parse_gigachat_response cyrillic REPLY_LINES
   = Inr ([72, 101, 108, 108, 111], [102, 111, 111, 10, 98, 97, 114])"
  using parse_no_separator [of REPLY_LINES cyrillic]
  by (simp add: REPLY_LINES_def eval_lines eval_defs)

text \<open>
  C7 does not hold in the fallback. The reply with the five lines \<open>Hello\<close>, a blank
  line, \<open>foo\<close> indented by two spaces, a blank line and \<open>bar\<close> indented by two
  spaces gives the explanation \<open>foo\<close>, newline, \<open>bar\<close>, which is not a part of the
  reply: the blank line and the indentation are gone.
\<close>

theorem explanation_not_preserved:
  "parse_gigachat_response cyrillic REPLY_LINES
   = Inr ([72, 101, 108, 108, 111], [102, 111, 111, 10, 98, 97, 114])
   \<and> \<not> py_contains [102, 111, 111, 10, 98, 97, 114] REPLY_LINES"
  using parse_reply_lines by (simp add: REPLY_LINES_def py_contains_def)

text \<open>
  C7, amended. With a separator the explanation is the text after the first separator,
  trimmed at its ends and otherwise unchanged. Without one it is the newline-join of
  the trimmed non-empty lines after the phrase line: blank lines and the whitespace
  around each line are dropped.
\<close>

theorem explanation_structure:
  assumes "parse_gigachat_response ua raw = Inr (p, e)"
  shows "e = (case py_find SEP raw of
                Some k \<Rightarrow> py_strip (drop (k + length SEP) raw)
              | None \<Rightarrow> py_join NL (tl (fallback_choice (trimmed_lines raw))))"
proof (cases "py_find SEP raw")
  case (Some k)
  with assms parse_separator [OF Some, of ua] show ?thesis by (simp add: SEP_facts)
next
  case None
  then have "\<not> py_contains SEP raw" by (simp add: py_contains_def)
  from parse_no_separator [OF this, of ua] assms None show ?thesis
    by (cases "fallback_choice (trimmed_lines raw)") simp_all
qed

theorem explanation_structure_witness:
  "parse_gigachat_response cyrillic REPLY_LINES
   = Inr ([72, 101, 108, 108, 111], [102, 111, 111, 10, 98, 97, 114])
   \<and> py_find SEP REPLY_LINES = None
   \<and> py_join NL (tl (fallback_choice (trimmed_lines REPLY_LINES)))
     = [102, 111, 111, 10, 98, 97, 114]"
  using explanation_structure [OF parse_reply_lines] parse_reply_lines
  by (simp add: REPLY_LINES_def SEP_def split: option.splits)

subsection \<open>C5: the phrase that is spoken\<close>

lemma speech_loop_speech:
  "GenerateSpeech t \<in> set (snd (speech_loop w phrase n ks tr))
   \<Longrightarrow> GenerateSpeech t \<in> set tr \<or> t = py_strip phrase"
proof (induction ks arbitrary: tr)
  case Nil
  then show ?case by simp
next
  case (Cons k ks)
  obtain r tr' where a: "attempt w phrase tr = (r, tr')" by (cases "attempt w phrase tr")
  have sub: "GenerateSpeech t \<in> set tr' \<Longrightarrow> GenerateSpeech t \<in> set tr \<or> t = py_strip phrase"
    using attempt_events [of w phrase tr] a by auto
  show ?case
  proof (cases r)
    case (Inr u)
    with Cons.prems a sub show ?thesis by simp
  next
    case (Inl e)
    with Cons.prems a
    have "GenerateSpeech t \<in> set (snd (speech_loop w phrase n ks (tr' @ [Sleep 1])))
          \<or> GenerateSpeech t \<in> set (snd (speech_loop w phrase n ks (tr' @ [AnswerMarkdown ERROR_NOTE])))"
      by (auto simp: bind_io_def sleep_def except_pass_def channel_call_def split: if_splits)
    then have "GenerateSpeech t \<in> set tr' \<or> t = py_strip phrase" using Cons.IH by fastforce
    then show ?thesis using sub by blast
  qed
qed

lemma deliver_speech:
  assumes "GenerateSpeech t \<in> set (snd (deliver w phrase tr))"
  shows "GenerateSpeech t \<in> set tr \<or> (t = py_strip phrase \<and> py_strip phrase \<noteq> [])"
proof (cases "phrase \<noteq> [] \<and> py_strip phrase \<noteq> []")
  case True
  with assms speech_loop_speech [of t w phrase max_retries "[0..<max_retries]" tr]
  show ?thesis by (simp add: deliver_def)
next
  case False
  with assms show ?thesis by (simp add: deliver_def lift_io_def split: if_splits)
qed

lemma handle_speech:
  assumes "GenerateSpeech t \<in> set (snd (handle w ua u tr))" "GenerateSpeech t \<notin> set tr"
  shows "\<exists>raw p e. gigachat w (tr @ [SendChatAction Typing]) u = Inr raw
           \<and> extract_reply ua raw = Inr (p, e) \<and> t = py_strip p \<and> t \<noteq> []"
proof -
  let ?t1 = "tr @ [SendChatAction Typing]"
  let ?t2 = "?t1 @ [SendMessage u]"
  have typing: "\<not> channel_raises w tr (SendChatAction Typing)"
    using assms by (auto simp: handle_def bind_io_def channel_call_def)
  then have h1: "handle w ua u tr
      = bind_io (send_message w u) (\<lambda>gigachat_response.
        bind_io (lift_io (extract_reply ua gigachat_response)) (\<lambda>(english_text, explanation).
        bind_io (channel_call w (Answer (compose english_text explanation))) (\<lambda>_.
        deliver w english_text))) ?t1"
    by (simp add: handle_def bind_io_def channel_call_def)
  obtain raw where raw: "gigachat w ?t1 u = Inr raw"
    using assms h1 by (cases "gigachat w ?t1 u") (auto simp: bind_io_def send_message_def)
  then have h2: "handle w ua u tr
      = bind_io (lift_io (extract_reply ua raw)) (\<lambda>(english_text, explanation).
        bind_io (channel_call w (Answer (compose english_text explanation))) (\<lambda>_.
        deliver w english_text)) ?t2"
    by (simp add: h1 bind_io_def send_message_def)
  obtain p e where pe: "extract_reply ua raw = Inr (p, e)"
    using assms h2 by (cases "extract_reply ua raw") (auto simp: bind_io_def lift_io_def)
  let ?t3 = "?t2 @ [Answer (compose p e)]"
  have ans: "\<not> channel_raises w ?t2 (Answer (compose p e))"
    using assms h2 pe by (auto simp: bind_io_def lift_io_def channel_call_def)
  then have h3: "handle w ua u tr = deliver w p ?t3"
    by (simp add: h2 pe bind_io_def lift_io_def channel_call_def)
  from deliver_speech [of t w p ?t3] assms h3 have "t = py_strip p \<and> py_strip p \<noteq> []" by auto
  with raw pe show ?thesis by auto
qed

lemma rescan_Some: "rescan ua ls = Some l \<Longrightarrow> \<not> has_cyrillic l"
  by (auto simp: rescan_find find_Some_iff qualifies_def)

lemma extract_reply_cyrillic:
  assumes "extract_reply ua raw = Inr (p, e)" "has_cyrillic p"
  shows "rescan ua (split_all NL raw) = None"
proof -
  from assms(1) obtain q where r: "repair ua raw q = Inr p"
    by (auto simp: extract_reply_def split: sum.splits prod.splits)
  show ?thesis
  proof (cases "rescan ua (split_all NL raw)")
    case None
    then show ?thesis .
  next
    case (Some l)
    with r assms(2) rescan_Some [OF Some] show ?thesis
      by (auto simp: repair_def py_split_def NL_def split: if_splits)
  qed
qed

lemma has_cyrillic_strip: "has_cyrillic (py_strip p) \<Longrightarrow> has_cyrillic p"
  using set_mono_sublist [OF sublist_strip_by, of isspace p]
  by (auto simp: has_cyrillic_def py_strip_def list_ex_iff)

lemmas eval_extract = extract_reply_def fix_empty_def repair_def compose_def process_message_def
  handle_def has_cyrillic_def has_alpha_def py_isalpha_def

text \<open>
  C5 does not hold: the repair is an attempt. When the completion service answers with
  one Cyrillic line, no line of the reply can replace the phrase, and the handler
  passes the Cyrillic phrase to the speech client.
\<close>

theorem speech_with_cyrillic:
  "process_message W_cyrillic cyrillic (Some [72, 105]) []
   = (Inr (), [SendChatAction Typing, SendMessage [72, 105], Answer [1044, 1072],
               SendChatAction RecordVoice, GenerateSpeech [1044, 1072], AnswerVoice [1]])
   \<and> has_cyrillic [1044, 1072]"
  using parse_no_separator [of "[1044, 1072]" cyrillic]
  by (simp add: W_cyrillic_def eval_extract eval_io eval_lines eval_defs py_split_def)

text \<open>
  C5, amended. Whenever the handler calls the speech client, the phrase it passes has a
  character that is not whitespace. The phrase has a Cyrillic character only when the
  repair pass found no line to replace it: no trimmed line of the reply with an
  alphabetic character, no Cyrillic character, no separator and no leading bracket.
\<close>

theorem spoken_phrase:
  assumes "GenerateSpeech t \<in> set (snd (process_message w ua msg tr))"
    and "GenerateSpeech t \<notin> set tr"
  shows "list_ex (\<lambda>c. \<not> isspace c) t
         \<and> (\<exists>user_text raw.
               msg = Some user_text
               \<and> gigachat w (tr @ [SendChatAction Typing]) user_text = Inr raw
               \<and> (has_cyrillic t
                    \<longrightarrow> List.find (qualifies ua) (map py_strip (split_all NL raw)) = None))"
proof -
  from assms obtain u where u: "msg = Some u" and ne: "\<not> (u = [] \<or> py_strip u = [])"
    by (cases msg) (auto simp: process_message_def channel_call_def split: if_splits)
  obtain r tr' where h: "handle w ua u tr = (r, tr')" by (cases "handle w ua u tr")
  have "GenerateSpeech t \<in> set tr'"
    using assms(1) u ne h
    by (cases r) (auto simp: process_message_def channel_call_def)
  with h assms(2) handle_speech [of t w ua u tr]
  obtain raw p e where raw: "gigachat w (tr @ [SendChatAction Typing]) u = Inr raw"
    and pe: "extract_reply ua raw = Inr (p, e)" and t: "t = py_strip p" "t \<noteq> []"
    by auto
  from t have "\<not> isspace (hd t)" using strip_by_ends(1) [of isspace p] by (simp add: py_strip_def)
  with t(2) have "list_ex (\<lambda>c. \<not> isspace c) t" by (cases t) (auto simp: list_ex_iff)
  moreover have "List.find (qualifies ua) (map py_strip (split_all NL raw)) = None"
    if "has_cyrillic t"
    using that t(1) has_cyrillic_strip extract_reply_cyrillic [OF pe] by (simp add: rescan_find)
  ultimately show ?thesis using u raw by auto
qed

lemma process_english:
  "process_message W_english cyrillic (Some [1044, 1072]) []
   = (Inr (), [SendChatAction Typing, SendMessage [1044, 1072],
               Answer [72, 105, 10, 10, 45, 45, 45, 10, 10, 72, 105],
               SendChatAction RecordVoice, GenerateSpeech [72, 105], AnswerVoice [1]])"
  using parse_separator [of "[1044, 1072, 10, 45, 45, 45, 10, 72, 105]" 3 cyrillic]
  by (simp add: W_english_def eval_extract eval_io eval_lines eval_defs py_split_def
      ascii_letter_def)

theorem spoken_phrase_witness:
  "GenerateSpeech [72, 105] \<in> set (snd (process_message W_english cyrillic (Some [1044, 1072]) []))
   \<and> list_ex (\<lambda>c. \<not> isspace c) [72, 105]
   \<and> gigachat W_english [SendChatAction Typing] [1044, 1072]
     = Inr [1044, 1072, 10, 45, 45, 45, 10, 72, 105]
   \<and> \<not> has_cyrillic [72, 105]"
  using spoken_phrase [of "[72, 105]" W_english cyrillic "Some [1044, 1072]" "[]"] process_english
  by (simp add: W_english_def has_cyrillic_def cyrillic_def isspace_def)

subsection \<open>C8: splitting the composed reply again\<close>

lemma py_find_skip:
  assumes "\<not> sublist sep a" "b \<noteq> []" "hd b \<notin> set sep"
  shows "py_find sep (a @ b) = map_option (\<lambda>i. i + length a) (py_find sep b)"
  using assms(1)
proof (induction a)
  case Nil
  show ?case by (simp add: option.map_ident)
next
  case (Cons c cs)
  have np: "\<not> prefix sep ((c # cs) @ b)"
  proof
    assume "prefix sep ((c # cs) @ b)"
    then consider "prefix sep (c # cs)"
      | us where "sep = (c # cs) @ us" "prefix us b"
      by (auto simp only: prefix_append)
    then show False
    proof cases
      case 1
      with Cons.prems show False by auto
    next
      case 2
      show False
      proof (cases us)
        case Nil
        with 2 Cons.prems show False by auto
      next
        case (Cons u us')
        with 2(2) assms(2) have "hd b = u" by (cases b) auto
        with 2(1) Cons assms(3) show False by auto
      qed
    qed
  qed
  have "\<not> sublist sep cs" using Cons.prems by (auto simp: sublist_Cons_right)
  from Cons.IH [OF this] np show ?case
    by (simp add: option.map_comp comp_def)
qed

lemma py_find_take_no_sep:
  assumes "py_find sep s = Some k" "sep \<noteq> []"
  shows "\<not> sublist sep (take k s)"
proof
  assume "sublist sep (take k s)"
  then obtain a b where ab: "take k s = a @ sep @ b" by (auto simp: sublist_def)
  have "length (take k s) \<le> k" by simp
  then have "length a + length sep + length b \<le> k" by (simp add: ab)
  moreover have "0 < length sep" using assms(2) by simp
  ultimately have lt: "length a < k" by arith
  have "s = (a @ sep @ b) @ drop k s" using append_take_drop_id [of k s] by (simp only: ab)
  then have "s = a @ (sep @ b @ drop k s)" by simp
  then have "drop (length a) s = sep @ b @ drop k s"
    by (metis append_eq_conv_conj)
  then have "prefix sep (drop (length a) s)" by simp
  with py_find_first [OF assms(1) lt] show False by blast
qed

lemma parse_output:
  assumes "parse_gigachat_response ua raw = Inr (p, e)"
  shows "\<exists>t. p = clean_phrase t \<and> \<not> py_contains SEP t" and "py_strip e = e"
proof -
  have "(\<exists>t. p = clean_phrase t \<and> \<not> py_contains SEP t) \<and> py_strip e = e"
  proof (cases "py_find SEP raw")
    case (Some k)
    have "\<not> sublist SEP (take k raw)" using Some SEP_facts(1) by (rule py_find_take_no_sep)
    then have "\<not> py_contains SEP (py_strip (take k raw))"
      unfolding py_strip_def by (intro no_sep_strip) (simp add: py_contains_sublist)
    with assms parse_separator [OF Some, of ua] show ?thesis
      by (auto simp: py_strip_def strip_by_idem)
  next
    case None
    then have n: "\<not> py_contains SEP raw" by (simp add: py_contains_def)
    define ch where "ch = fallback_choice (trimmed_lines raw)"
    have sub: "set ch \<subseteq> set (trimmed_lines raw)"
      unfolding ch_def by (rule fallback_choice_subset)
    have pn: "parse_gigachat_response ua raw
        = Inr (case ch of [] \<Rightarrow> ([], []) | l # rest \<Rightarrow> (clean_phrase l, py_join NL rest))"
      unfolding ch_def using n by (rule parse_no_separator)
    show ?thesis
    proof (cases ch)
      case Nil
      with pn assms have "p = clean_phrase []" "e = []" by (simp_all add: clean_phrase_Nil)
      moreover have "\<not> py_contains SEP []" by (simp add: py_contains_def SEP_def)
      ultimately show ?thesis by (auto simp: py_strip_def strip_by_def)
    next
      case (Cons l rest)
      with pn assms have pe: "p = clean_phrase l" "e = py_join NL rest" by simp_all
      from Cons sub have l: "l \<in> set (trimmed_lines raw)"
        and r: "set rest \<subseteq> set (trimmed_lines raw)" by auto
      from l have "sublist l raw" by (rule trimmed_lines_sublist)
      with n have "\<not> py_contains SEP l"
        unfolding py_contains_sublist using sublist_trans by blast
      with pe strip_join_lines [OF r] show ?thesis by auto
    qed
  qed
  then show "\<exists>t. p = clean_phrase t \<and> \<not> py_contains SEP t" and "py_strip e = e" by simp_all
qed

lemma clean_phrase_fixed:
  assumes "p = clean_phrase t" "p \<noteq> []" "hd p \<notin> set BRACKETS" "last p \<notin> set BRACKETS"
  shows "clean_phrase p = p"
proof -
  have "py_strip_chars BRACKETS p = p"
    unfolding py_strip_chars_def using assms(3,4) by (intro strip_by_id) simp
  moreover have "py_strip p = p" "py_join SP (py_split_ws p) = p"
    unfolding assms(1) by (rule clean_phrase_normal)+
  ultimately show ?thesis by (simp add: clean_phrase_def)
qed

lemma parse_compose:
  assumes p: "p = clean_phrase t" and ns: "\<not> py_contains SEP t" and ne: "p \<noteq> []"
    and br: "hd p \<notin> set BRACKETS" "last p \<notin> set BRACKETS" and e: "py_strip e = e"
  shows "parse_gigachat_response ua (compose p e) = Inr (p, e)"
proof -
  have cp: "clean_phrase p = p" using p ne br by (rule clean_phrase_fixed)
  have sp: "py_strip p = p" unfolding p by (rule clean_phrase_normal)
  have nsp: "\<not> py_contains SEP p" unfolding p using ns by (rule no_sep_clean_phrase)
  have ws: "\<forall>c\<in>set p. isspace c \<longrightarrow> c = 32" unfolding p by (rule clean_phrase_normal)
  have sp10: "isspace 10" by (simp add: isspace_def)
  show ?thesis
  proof (cases "e = []")
    case True
    have "10 \<notin> set p" using ws sp10 by auto
    then have "\<not> sublist [10] p" using set_mono_sublist by fastforce
    then have "split_all NL p = [p]"
      by (intro split_all_none) (simp add: py_contains_sublist NL_def)
    then have tl: "trimmed_lines p = [p]" using sp ne by (simp add: trimmed_lines_def)
    have "fallback_choice [p] = [p]" by (simp add: fallback_choice_def)
    with parse_no_separator [OF nsp, of ua] tl cp True show ?thesis
      by (simp add: compose_def)
  next
    case False
    let ?b = "[10, 10] @ SEP @ [10, 10] @ e"
    have c: "compose p e = p @ ?b" using False by (simp add: compose_def)
    have "py_find SEP (p @ ?b) = map_option (\<lambda>i. i + length p) (py_find SEP ?b)"
      using nsp by (intro py_find_skip) (simp_all add: py_contains_sublist SEP_def)
    also have "py_find SEP ?b = Some 2" by (simp add: SEP_def)
    finally have f: "py_find SEP (compose p e) = Some (length p + 2)" by (simp add: c)
    have "take (length p + 2) (compose p e) = (p @ [10]) @ [10]" by (simp add: c)
    then have t: "py_strip (take (length p + 2) (compose p e)) = p"
      using sp sp10 by (simp only: py_strip_def strip_by_snoc)
    have "drop (length p + 2 + 3) (compose p e) = 10 # 10 # e" by (simp add: c SEP_def)
    then have d: "py_strip (drop (length p + 2 + 3) (compose p e)) = e"
      using e sp10 by (simp only: py_strip_def strip_by_Cons)
    from parse_separator [OF f, of ua] show ?thesis by (simp only: t d cp)
  qed
qed

text \<open>
  C8 does not hold for a phrase that still has a bracket at one end: the brackets are
  stripped once, before the inner whitespace is trimmed. The reply \<open>[ [a] ]\<close> gives
  the phrase \<open>[a]\<close> and no explanation; the composed reply is \<open>[a]\<close>, and splitting
  it gives the phrase \<open>a\<close>.
\<close>

theorem split_not_idempotent:
  "parse_gigachat_response cyrillic [91, 32, 91, 97, 93, 32, 93] = Inr ([91, 97, 93], [])
   \<and> \<not> has_cyrillic [91, 97, 93]
   \<and> parse_gigachat_response cyrillic (compose [91, 97, 93] []) = Inr ([97], [])"
  using parse_no_separator [of "[91, 32, 91, 97, 93, 32, 93]" cyrillic]
    parse_no_separator [of "[91, 97, 93]" cyrillic]
  by (simp add: compose_def has_cyrillic_def eval_lines eval_defs)

text \<open>
  C8, amended. For a pair returned by the splitter whose phrase is not empty, has no
  Cyrillic character and neither begins nor ends with a bracket, splitting the composed
  reply (the phrase, a blank line, the separator, a blank line, the explanation; the
  phrase alone when the explanation is empty) returns the same pair.
\<close>

theorem split_idempotent:
  assumes "parse_gigachat_response ua raw = Inr (p, e)"
    and "p \<noteq> []" and "\<not> has_cyrillic p"
    and "hd p \<notin> set BRACKETS" and "last p \<notin> set BRACKETS"
  shows "parse_gigachat_response ua (compose p e) = Inr (p, e)"
proof -
  from parse_output [OF assms(1)] obtain t where "p = clean_phrase t" "\<not> py_contains SEP t"
    and "py_strip e = e" by blast
  then show ?thesis using assms(2,4,5) by (intro parse_compose)
qed

theorem split_idempotent_witness:
  "parse_gigachat_response cyrillic
     [91, 72, 105, 32, 32, 121, 111, 117, 93, 10, 45, 45, 45, 10, 32, 1044, 1072, 32]
   = Inr ([72, 105, 32, 121, 111, 117], [1044, 1072])
   \<and> parse_gigachat_response cyrillic (compose [72, 105, 32, 121, 111, 117] [1044, 1072])
     = Inr ([72, 105, 32, 121, 111, 117], [1044, 1072])"
  using split_idempotent
      [of cyrillic "[91, 72, 105, 32, 32, 121, 111, 117, 93, 10, 45, 45, 45, 10, 32, 1044, 1072, 32]"
          "[72, 105, 32, 121, 111, 117]" "[1044, 1072]"]
    parse_separator
      [of "[91, 72, 105, 32, 32, 121, 111, 117, 93, 10, 45, 45, 45, 10, 32, 1044, 1072, 32]" 10 cyrillic]
  by (simp add: has_cyrillic_def cyrillic_def eval_defs)

end
